theory Spec2Isabelle
  imports Main "HOL-Library.Multiset" "HOL-Library.Sublist"
begin

section \<open>File names\<close>

text \<open>
  The organizer reads a file name through \<^verbatim>\<open>pathlib\<close>: \<^verbatim>\<open>Path.suffix\<close> and
  \<^verbatim>\<open>Path.stem\<close> split the name at its last dot, provided that dot is neither the
  first nor the last character of the name (\<^verbatim>\<open>i = name.rfind('.')\<close>,
  \<^verbatim>\<open>0 < i < len(name) - 1\<close>). \<open>upper\<close> is \<^verbatim>\<open>str.upper\<close> as it
  acts on ASCII names: the letters a to z become capitals. The first part of the
  development, up to the second run, is about such names; in the part on operating
  systems \<^verbatim>\<open>str.upper\<close> is a parameter and names are arbitrary.
\<close>

fun rfind :: "char \<Rightarrow> string \<Rightarrow> nat option" where
  "rfind c [] = None"
| "rfind c (x # xs) =
     (case rfind c xs of
        Some i \<Rightarrow> Some (Suc i)
      | None \<Rightarrow> if x = c then Some 0 else None)"

definition suffix_of :: "string \<Rightarrow> string" where
  "suffix_of name =
     (case rfind CHR ''.'' name of
        None \<Rightarrow> []
      | Some i \<Rightarrow> if 0 < i \<and> i < length name - 1 then drop i name else [])"

definition stem_of :: "string \<Rightarrow> string" where
  "stem_of name =
     (case rfind CHR ''.'' name of
        None \<Rightarrow> name
      | Some i \<Rightarrow> if 0 < i \<and> i < length name - 1 then take i name else name)"

definition upper_char :: "char \<Rightarrow> char" where
  "upper_char c =
     (let n = (of_char c :: nat)
      in if 97 \<le> n \<and> n \<le> 122 then char_of (n - 32) else c)"

definition upper :: "string \<Rightarrow> string" where
  "upper s = map upper_char s"

definition lstrip :: "char \<Rightarrow> string \<Rightarrow> string" where
  "lstrip c s = dropWhile (\<lambda>x. x = c) s"

text \<open>
  Lines 58 to 62 of \<^verbatim>\<open>organize_files\<close>:
  \<^verbatim>\<open>extension = file_path.suffix.lstrip('.').upper()\<close>, replaced by
  \<^verbatim>\<open>"NO_EXTENSION"\<close> when empty.
\<close>

definition extension_key :: "string \<Rightarrow> string" where
  "extension_key name =
     (let extension = upper (lstrip CHR ''.'' (suffix_of name))
      in if extension = [] then ''NO_EXTENSION'' else extension)"

text \<open>Python's \<^verbatim>\<open>str(counter)\<close> for a non-negative counter: its decimal digits.\<close>

fun str_nat :: "nat \<Rightarrow> string" where
  "str_nat n =
     (if n < 10 then [char_of (48 + n)]
      else str_nat (n div 10) @ [char_of (48 + n mod 10)])"

section \<open>The directory tree\<close>

text \<open>
  The directory being organized is a tree: a file with its content, or a directory
  with its entries in the order in which the operating system lists them. Paths are
  relative to the organized directory (the empty path is that directory itself). A
  file path is kept as the pair of its parent directory and its name, which is how
  the scan builds it (\<^verbatim>\<open>Path(root) / filename\<close>). In the first part of the
  development the file system is case sensitive and has no symbolic links, names are
  not limited in length and every operation is permitted, so that an operation fails
  only for what the tree holds; the part on operating systems drops these
  assumptions.
\<close>

datatype 'a node = File 'a | Dir "(string \<times> 'a node) list"

type_synonym 'a entries = "(string \<times> 'a node) list"

type_synonym path = "string list"

type_synonym fpath = "path \<times> string"

fun is_dir :: "'a node \<Rightarrow> bool" where
  "is_dir (Dir es) = True"
| "is_dir (File c) = False"

fun lookup :: "'a node \<Rightarrow> path \<Rightarrow> 'a node option" where
  "lookup t [] = Some t"
| "lookup t (n # p) =
     (case t of
        File c \<Rightarrow> None
      | Dir es \<Rightarrow> (case map_of es n of None \<Rightarrow> None | Some c \<Rightarrow> lookup c p))"

text \<open>
  \<^verbatim>\<open>Path.exists\<close> when it answers and no symbolic link is in the way: whether something
  stands at the path. \<open>path_exists_os\<close> is the call that may raise or be wrong.
\<close>

definition path_exists :: "'a node \<Rightarrow> path \<Rightarrow> bool" where
  "path_exists t p = (lookup t p \<noteq> None)"

fun remove_entry :: "string \<Rightarrow> 'a entries \<Rightarrow> 'a entries" where
  "remove_entry n [] = []"
| "remove_entry n ((m, x) # es) = (if m = n then es else (m, x) # remove_entry n es)"

fun replace_entry :: "string \<Rightarrow> 'a node \<Rightarrow> 'a entries \<Rightarrow> 'a entries" where
  "replace_entry n y [] = []"
| "replace_entry n y ((m, x) # es) =
     (if m = n then (m, y) # es else (m, x) # replace_entry n y es)"

definition add_entry :: "string \<Rightarrow> 'a node \<Rightarrow> 'a entries \<Rightarrow> 'a entries" where
  "add_entry n x es = es @ [(n, x)]"

text \<open>\<open>update_dir d f t\<close> rewrites the entries of the directory at path \<open>d\<close> of \<open>t\<close>.\<close>

fun update_dir :: "path \<Rightarrow> ('a entries \<Rightarrow> 'a entries) \<Rightarrow> 'a node \<Rightarrow> 'a node" where
  "update_dir [] f t = (case t of File c \<Rightarrow> File c | Dir es \<Rightarrow> Dir (f es))"
| "update_dir (n # d) f t =
     (case t of
        File c \<Rightarrow> File c
      | Dir es \<Rightarrow>
          (case map_of es n of
             None \<Rightarrow> Dir es
           | Some c \<Rightarrow> Dir (replace_entry n (update_dir d f c) es)))"

datatype error =
  FileExistsError | FileNotFoundError | NotADirectoryError | ShutilError
  | PermissionError | OSError | RuntimeError

text \<open>\<^verbatim>\<open>Path.mkdir(exist_ok=True)\<close> of the folder \<open>name\<close> in the directory \<open>parent\<close>.\<close>

definition mkdir_exist_ok :: "path \<Rightarrow> string \<Rightarrow> 'a node \<Rightarrow> error + 'a node" where
  "mkdir_exist_ok parent name t =
     (case lookup t (parent @ [name]) of
        Some (Dir es) \<Rightarrow> Inr t
      | Some (File c) \<Rightarrow> Inl FileExistsError
      | None \<Rightarrow>
          (case lookup t parent of
             Some (Dir es) \<Rightarrow> Inr (update_dir parent (add_entry name (Dir [])) t)
           | Some (File c) \<Rightarrow> Inl NotADirectoryError
           | None \<Rightarrow> Inl FileNotFoundError))"

text \<open>
  \<^verbatim>\<open>shutil.move(src, dst)\<close> for a regular file \<open>src\<close> (the organizer passes the files the
  scan found), when the rename it tries first goes through. A free destination name
  in an existing directory takes the file; an existing file at the destination is
  replaced, as \<^verbatim>\<open>os.rename\<close> does; an existing directory at the destination receives
  the file under its own name, unless that name is taken there. The function says
  nothing of the library on other sources: a missing source is an error, as in the
  library, and so is here a directory, which the library would rename and which no run
  passes. The fallback of the library when the rename is refused (copy, then unlink)
  is in \<open>shutil_move_os\<close>.
\<close>

definition shutil_move :: "fpath \<Rightarrow> fpath \<Rightarrow> 'a node \<Rightarrow> error + 'a node" where
  "shutil_move src dst t =
     (case lookup t (fst src @ [snd src]) of
        Some (File c) \<Rightarrow>
          (case lookup t (fst dst @ [snd dst]) of
             None \<Rightarrow>
               (case lookup t (fst dst) of
                  Some (Dir es) \<Rightarrow>
                    Inr (update_dir (fst dst) (add_entry (snd dst) (File c))
                          (update_dir (fst src) (remove_entry (snd src)) t))
                | Some (File c') \<Rightarrow> Inl NotADirectoryError
                | None \<Rightarrow> Inl FileNotFoundError)
           | Some (File c') \<Rightarrow>
               (if src = dst then Inr t
                else Inr (update_dir (fst dst) (replace_entry (snd dst) (File c))
                           (update_dir (fst src) (remove_entry (snd src)) t)))
           | Some (Dir es) \<Rightarrow>
               (case lookup t (fst dst @ [snd dst, snd src]) of
                  None \<Rightarrow>
                    Inr (update_dir (fst dst @ [snd dst]) (add_entry (snd src) (File c))
                          (update_dir (fst src) (remove_entry (snd src)) t))
                | Some x \<Rightarrow> Inl ShutilError))
      | Some (Dir es) \<Rightarrow> Inl ShutilError
      | None \<Rightarrow> Inl FileNotFoundError)"

section \<open>Scanner\<close>

text \<open>
  \<^verbatim>\<open>get_all_files\<close> collects \<^verbatim>\<open>Path(root) / filename\<close> over \<^verbatim>\<open>os.walk(directory)\<close>, which
  is top-down: the files of a directory come first, then the walk of each of its
  subdirectories in turn.
\<close>

definition filenames :: "'a entries \<Rightarrow> string list" where
  "filenames es = map fst (filter (\<lambda>e. \<not> is_dir (snd e)) es)"

definition dirnames :: "'a entries \<Rightarrow> string list" where
  "dirnames es = map fst (filter (\<lambda>e. is_dir (snd e)) es)"

fun walk_node :: "path \<Rightarrow> 'a node \<Rightarrow> fpath list"
  and walk_entries :: "path \<Rightarrow> 'a entries \<Rightarrow> fpath list" where
  "walk_node dirpath (File c) = []"
| "walk_node dirpath (Dir es) = map (\<lambda>filename. (dirpath, filename)) (filenames es) @ walk_entries dirpath es"
| "walk_entries dirpath [] = []"
| "walk_entries dirpath ((n, c) # es) = walk_node (dirpath @ [n]) c @ walk_entries dirpath es"

definition get_all_files :: "'a node \<Rightarrow> fpath list" where
  "get_all_files directory = walk_node [] directory"

section \<open>Classifier\<close>

text \<open>
  \<^verbatim>\<open>files_by_type\<close> is a \<^verbatim>\<open>defaultdict(list)\<close>: an insertion-ordered dictionary, here a
  list of pairs of a key and its files, a new key going to the end.
\<close>

type_synonym groups = "(string \<times> fpath list) list"

fun add_to_group :: "string \<Rightarrow> fpath \<Rightarrow> groups \<Rightarrow> groups" where
  "add_to_group k p [] = [(k, [p])]"
| "add_to_group k p ((k', ps) # g) =
     (if k' = k then (k', ps @ [p]) # g else (k', ps) # add_to_group k p g)"

fun group_files :: "fpath list \<Rightarrow> groups \<Rightarrow> groups" where
  "group_files [] files_by_type = files_by_type"
| "group_files (file_path # ps) files_by_type =
     group_files ps (add_to_group (extension_key (snd file_path)) file_path files_by_type)"

section \<open>Mover\<close>

record 'a state =
  fs :: "'a node"
  total_moved :: nat
  total_errors :: nat

text \<open>
  The collision loop of lines 91 to 97: the destination starts as the file's own name
  and, while something exists under the current name, becomes
  \<^verbatim>\<open>f"{original_stem}_{counter}{file_path.suffix}"\<close> with the counter then incremented. The
  loop ends because the destination folder has finitely many entries and distinct
  counters give distinct names; the facts below are what the termination proof needs.
\<close>

declare str_nat.simps [simp del]

lemma str_nat_not_Nil: "str_nat n \<noteq> []"
  by (subst str_nat.simps) simp

lemma digit_inj: "a < 10 \<Longrightarrow> b < 10 \<Longrightarrow> (char_of (48 + a :: nat) :: char) = char_of (48 + b) \<Longrightarrow> a = b"
  by (simp add: char_of_eq_iff take_bit_eq_mod)


lemma finite_names: "finite {n. path_exists t (d @ [n])}"
proof (induction d arbitrary: t)
  case Nil
  show ?case
  proof (cases t)
    case (File c) then show ?thesis by (simp add: path_exists_def)
  next
    case (Dir es)
    have "{n. path_exists t [n]} \<subseteq> fst ` set es"
      using Dir by (auto simp: path_exists_def split: option.splits dest: map_of_SomeD intro: rev_image_eqI)
    then show ?thesis by (simp add: finite_subset)
  qed
next
  case (Cons a d)
  show ?case
  proof (cases t)
    case (File c) then show ?thesis by (simp add: path_exists_def)
  next
    case (Dir es)
    show ?thesis
    proof (cases "map_of es a")
      case None then show ?thesis using Dir by (simp add: path_exists_def)
    next
      case (Some c)
      then show ?thesis using Dir Cons.IH[of c] by (simp add: path_exists_def)
    qed
  qed
qed

lemma str_nat_inj: "str_nat m = str_nat n \<Longrightarrow> m = n"
proof (induction m arbitrary: n rule: str_nat.induct)
  case (1 m)
  show ?case
  proof (cases "m < 10")
    case True
    show ?thesis
    proof (cases "n < 10")
      case True
      with \<open>m < 10\<close> "1.prems" show ?thesis
        by (simp add: str_nat.simps[of m] str_nat.simps[of n] digit_inj)
    next
      case False
      with \<open>m < 10\<close> "1.prems" show ?thesis
        using str_nat_not_Nil[of "n div 10"]
        by (simp add: str_nat.simps[of m] str_nat.simps[of n])
    qed
  next
    case False
    show ?thesis
    proof (cases "n < 10")
      case True
      with \<open>\<not> m < 10\<close> "1.prems" show ?thesis
        using str_nat_not_Nil[of "m div 10"]
        by (simp add: str_nat.simps[of m] str_nat.simps[of n])
    next
      case nge: False
      from False nge "1.prems"
      have e: "str_nat (m div 10) = str_nat (n div 10)"
        and d: "(char_of (48 + m mod 10) :: char) = char_of (48 + n mod 10)"
        by (simp_all add: str_nat.simps[of m] str_nat.simps[of n])
      from "1.IH"[OF False e] have q: "m div 10 = n div 10" .
      have r: "m mod 10 = n mod 10" by (rule digit_inj[OF _ _ d]) simp_all
      have "m = 10 * (m div 10) + m mod 10" by simp
      also have "\<dots> = 10 * (n div 10) + n mod 10" using q r by simp
      also have "\<dots> = n" by simp
      finally show ?thesis .
    qed
  qed
qed


text \<open>The name of line 96: the stem, an underscore, the counter and the suffix.\<close>

definition candidate :: "string \<Rightarrow> string \<Rightarrow> nat \<Rightarrow> string" where
  "candidate original_stem sfx counter = original_stem @ ''_'' @ str_nat counter @ sfx"

lemma candidate_inj: "candidate s x i = candidate s x j \<Longrightarrow> i = j"
  by (simp add: candidate_def str_nat_inj)

lemma finite_taken: "finite {j. c \<le> j \<and> path_exists t (d @ [candidate s x j])}"
proof -
  have "inj (candidate s x)" by (auto simp: inj_on_def dest: candidate_inj)
  then have "finite (candidate s x -` {n. path_exists t (d @ [n])})"
    by (rule finite_vimageI[OF finite_names])
  moreover have "{j. c \<le> j \<and> path_exists t (d @ [candidate s x j])}
      \<subseteq> candidate s x -` {n. path_exists t (d @ [n])}" by auto
  ultimately show ?thesis by (rule rev_finite_subset)
qed

text \<open>
  \<open>taken_from t d s x c\<close> counts the counters from \<open>c\<close> on whose name is taken in the
  directory \<open>d\<close>. It is the measure of the termination proof and nothing else.
\<close>

definition taken_from :: "'a node \<Rightarrow> path \<Rightarrow> string \<Rightarrow> string \<Rightarrow> nat \<Rightarrow> nat" where
  "taken_from t d s x c = card {j. c \<le> j \<and> path_exists t (d @ [candidate s x j])}"

lemma taken_decreases:
  "taken_from t d s x (Suc c) + (if path_exists t (d @ [candidate s x c]) then 1 else 0)
   \<le> taken_from t d s x c"
proof (cases "path_exists t (d @ [candidate s x c])")
  case True
  let ?A = "{j. c \<le> j \<and> path_exists t (d @ [candidate s x j])}"
  have "{j. Suc c \<le> j \<and> path_exists t (d @ [candidate s x j])} = ?A - {c}" by auto
  moreover have "c \<in> ?A" using True by simp
  ultimately show ?thesis using card_Suc_Diff1[OF finite_taken[of c t d s x], of c] True
    by (simp add: taken_from_def)
next
  case False
  have "{j. Suc c \<le> j \<and> path_exists t (d @ [candidate s x j])}
      = {j. c \<le> j \<and> path_exists t (d @ [candidate s x j])}"
    using False by (auto simp: Suc_le_eq intro: le_neq_implies_less)
  then show ?thesis using False by (simp add: taken_from_def)
qed

lemma find_dest_measure:
  "path_exists t (d @ [n]) \<Longrightarrow>
   ((t, d, s, x, c + 1, candidate s x c), (t, d, s, x, c, n))
     \<in> measure (\<lambda>(t, d, s, x, c, n).
          taken_from t d s x c + (if path_exists t (d @ [n]) then 1 else 0))"
  using taken_decreases[of t d s x c] by simp

function find_dest :: "'a node \<Rightarrow> path \<Rightarrow> string \<Rightarrow> string \<Rightarrow> nat \<Rightarrow> string \<Rightarrow> string" where
  "find_dest t dest_folder original_stem sfx counter dest_name =
     (if path_exists t (dest_folder @ [dest_name])
      then find_dest t dest_folder original_stem sfx (counter + 1)
             (candidate original_stem sfx counter)
      else dest_name)"
  by pat_completeness auto
termination
  by (relation "measure (\<lambda>(t, d, s, x, c, n).
          taken_from t d s x c + (if path_exists t (d @ [n]) then 1 else 0))")
    (simp, erule find_dest_measure)

declare find_dest.simps [simp del]

text \<open>
  One iteration of the loop of lines 84 to 106: a file whose parent is the destination
  folder is skipped; otherwise the file is moved to the name the collision loop found,
  and the move is counted, or its failure is.
\<close>

definition move_file :: "string \<Rightarrow> fpath \<Rightarrow> 'a state \<Rightarrow> 'a state" where
  "move_file file_type file_path st =
     (let dest_folder = [file_type] in
      if fst file_path = dest_folder then st
      else
        let dest_name =
              find_dest (fs st) dest_folder (stem_of (snd file_path))
                (suffix_of (snd file_path)) 1 (snd file_path)
        in case shutil_move file_path (dest_folder, dest_name) (fs st) of
             Inr t \<Rightarrow> st\<lparr>fs := t, total_moved := total_moved st + 1\<rparr>
           | Inl e \<Rightarrow> st\<lparr>total_errors := total_errors st + 1\<rparr>)"

fun move_files :: "string \<Rightarrow> fpath list \<Rightarrow> 'a state \<Rightarrow> 'a state" where
  "move_files file_type [] st = st"
| "move_files file_type (file_path # files) st =
     move_files file_type files (move_file file_type file_path st)"

text \<open>
  The loop of lines 71 to 106 over the groups: the destination folder is created
  directly under the organized directory; when that fails, the files of the group are
  counted as errors and the loop continues with the next group.
\<close>

fun process_groups :: "groups \<Rightarrow> 'a state \<Rightarrow> 'a state" where
  "process_groups [] st = st"
| "process_groups ((file_type, files) # files_by_type) st =
     (case mkdir_exist_ok [] file_type (fs st) of
        Inl e \<Rightarrow>
          process_groups files_by_type (st\<lparr>total_errors := total_errors st + length files\<rparr>)
      | Inr t \<Rightarrow>
          process_groups files_by_type (move_files file_type files (st\<lparr>fs := t\<rparr>)))"

section \<open>Cleaner\<close>

text \<open>
  \<^verbatim>\<open>cleanup_empty_dirs\<close> runs \<^verbatim>\<open>os.walk(directory, topdown=False)\<close>: a directory is listed
  when the walk enters it, its subdirectories are walked one after the other, and only
  then is the directory itself yielded with the names listed on entry. The loop body
  runs at each yield: every listed subdirectory whose name is not excluded is removed
  if it has no entry at that moment; a failure of \<^verbatim>\<open>iterdir\<close> or \<^verbatim>\<open>rmdir\<close> is swallowed.
  The printed count of removed directories is not modelled.
\<close>

fun remove_empty_dirs :: "string list \<Rightarrow> string list \<Rightarrow> 'a entries \<Rightarrow> 'a entries" where
  "remove_empty_dirs exclude_folders [] es = es"
| "remove_empty_dirs exclude_folders (dir_name # dirs) es =
     remove_empty_dirs exclude_folders dirs
       (if dir_name \<in> set exclude_folders then es
        else (case map_of es dir_name of
                Some (Dir []) \<Rightarrow> remove_entry dir_name es
              | _ \<Rightarrow> es))"

fun cleanup_node :: "string list \<Rightarrow> 'a node \<Rightarrow> 'a node"
  and cleanup_entries :: "string list \<Rightarrow> 'a entries \<Rightarrow> 'a entries" where
  "cleanup_node exclude_folders (File c) = File c"
| "cleanup_node exclude_folders (Dir es) =
     Dir (remove_empty_dirs exclude_folders (dirnames es) (cleanup_entries exclude_folders es))"
| "cleanup_entries exclude_folders [] = []"
| "cleanup_entries exclude_folders ((n, c) # es) =
     (n, cleanup_node exclude_folders c) # cleanup_entries exclude_folders es"

definition cleanup_empty_dirs :: "'a node \<Rightarrow> string list \<Rightarrow> 'a node" where
  "cleanup_empty_dirs directory exclude_folders = cleanup_node exclude_folders directory"

section \<open>Orchestrator\<close>

text \<open>
  \<^verbatim>\<open>organize_files\<close> receives what stands at the path the user gave: nothing, a file or
  a directory. It returns what it reported (the invalid-directory message, the
  no-files message, or the two counters of the summary) and what stands at the path
  afterwards. The examination of the path (lines 38 to 41) is taken to have answered;
  \<open>organize_files_os\<close> below has the case in which it raises, and equals this function
  on the permissive system (\<open>organize_files_os_permissive\<close>).
\<close>

datatype outcome = NotADirectory | NoFilesFound | Summary nat nat

definition organize_files :: "'a node option \<Rightarrow> outcome \<times> 'a node option" where
  "organize_files target =
     (case target of
        None \<Rightarrow> (NotADirectory, target)
      | Some (File c) \<Rightarrow> (NotADirectory, target)
      | Some (Dir es) \<Rightarrow>
          (let all_files = get_all_files (Dir es) in
           if all_files = [] then (NoFilesFound, target)
           else
             let files_by_type = group_files all_files [];
                 st = process_groups files_by_type
                        \<lparr>fs = Dir es, total_moved = 0, total_errors = 0\<rparr>
             in (Summary (total_moved st) (total_errors st),
                 Some (cleanup_empty_dirs (fs st) (map fst files_by_type)))))"

section \<open>Properties of the Classifier\<close>

lemma rfind_None_iff: "rfind c s = None \<longleftrightarrow> c \<notin> set s"
  by (induction s) (auto split: option.splits)

lemma rfind_append: "c \<notin> set b \<Longrightarrow> rfind c (a @ c # b) = Some (length a)"
proof (induction a)
  case Nil
  then have "rfind c b = None" by (simp add: rfind_None_iff)
  then show ?case by simp
next
  case (Cons x a)
  then show ?case by simp
qed


lemma suffix_of_split:
  assumes "stem \<noteq> []" "ext \<noteq> []" "CHR ''.'' \<notin> set ext"
  shows "suffix_of (stem @ CHR ''.'' # ext) = CHR ''.'' # ext"
    and "stem_of (stem @ CHR ''.'' # ext) = stem"
  using assms by (simp_all add: suffix_of_def stem_of_def rfind_append)

lemma suffix_of_nodot: "CHR ''.'' \<notin> set name \<Longrightarrow> suffix_of name = []"
  and stem_of_nodot: "CHR ''.'' \<notin> set name \<Longrightarrow> stem_of name = name"
  using rfind_None_iff[of "CHR ''.''" name] by (simp_all add: suffix_of_def stem_of_def)

lemma suffix_of_hidden: "CHR ''.'' \<notin> set rest \<Longrightarrow> suffix_of (CHR ''.'' # rest) = []"
  and stem_of_hidden: "CHR ''.'' \<notin> set rest \<Longrightarrow> stem_of (CHR ''.'' # rest) = CHR ''.'' # rest"
  using rfind_append[of "CHR ''.''" rest "[]"] by (simp_all add: suffix_of_def stem_of_def)

lemma suffix_of_trailing: "suffix_of (s @ ''.'') = []"
  and stem_of_trailing: "stem_of (s @ ''.'') = s @ ''.''"
  using rfind_append[of "CHR ''.''" "[]" s] by (simp_all add: suffix_of_def stem_of_def)





lemma extension_key_not_Nil: "extension_key name \<noteq> []"
  by (simp add: extension_key_def Let_def)

section \<open>Empty scans and folder failures\<close>

text \<open>
  Claim C10. When the scan of a directory finds no file, the run reports that and
  leaves the directory as it was: the early return comes before any folder is created
  and before the cleanup, so empty subdirectories stay.
\<close>

theorem organize_files_no_files:
  "get_all_files (Dir es) = [] \<Longrightarrow> organize_files (Some (Dir es)) = (NoFilesFound, Some (Dir es))"
  by (simp add: organize_files_def)

theorem organize_files_no_files_witness:
  "get_all_files (Dir [(''empty'', Dir []), (''outer'', Dir [(''inner'', Dir [])])] :: nat node) = [] \<and>
   organize_files (Some (Dir [(''empty'', Dir []), (''outer'', Dir [(''inner'', Dir [])])] :: nat node))
     = (NoFilesFound, Some (Dir [(''empty'', Dir []), (''outer'', Dir [(''inner'', Dir [])])]))"
proof -
  have h: "get_all_files (Dir [(''empty'', Dir []), (''outer'', Dir [(''inner'', Dir [])])] :: nat node) = []"
    by (simp add: get_all_files_def filenames_def)
  from organize_files_no_files[OF h] h show ?thesis by simp
qed

subsection \<open>The error counter never decreases\<close>

lemma move_file_errors_mono: "total_errors st \<le> total_errors (move_file k p st)"
  by (simp add: move_file_def Let_def split: sum.splits)

lemma move_files_errors_mono: "total_errors st \<le> total_errors (move_files k ps st)"
proof (induction ps arbitrary: st)
  case Nil
  show ?case by simp
next
  case (Cons p ps)
  have "total_errors st \<le> total_errors (move_file k p st)" by (rule move_file_errors_mono)
  also have "\<dots> \<le> total_errors (move_files k ps (move_file k p st))" by (rule Cons.IH)
  finally show ?case by simp
qed

lemma process_groups_errors_mono: "total_errors st \<le> total_errors (process_groups g st)"
proof (induction g arbitrary: st)
  case Nil
  show ?case by simp
next
  case (Cons a g)
  obtain k ps where a: "a = (k, ps)" by (cases a)
  show ?case
  proof (cases "mkdir_exist_ok [] k (fs st)")
    case (Inl e)
    have "total_errors st \<le> total_errors (st\<lparr>total_errors := total_errors st + length ps\<rparr>)" by simp
    also have "\<dots> \<le> total_errors (process_groups g (st\<lparr>total_errors := total_errors st + length ps\<rparr>))"
      by (rule Cons.IH)
    finally show ?thesis using Inl a by simp
  next
    case (Inr t)
    have "total_errors st \<le> total_errors (move_files k ps (st\<lparr>fs := t\<rparr>))"
      using move_files_errors_mono[of "st\<lparr>fs := t\<rparr>" k ps] by simp
    also have "\<dots> \<le> total_errors (process_groups g (move_files k ps (st\<lparr>fs := t\<rparr>)))"
      by (rule Cons.IH)
    finally show ?thesis using Inr a by simp
  qed
qed

text \<open>
  Claim C7. When the destination folder of a group cannot be created, the run goes on
  with the remaining groups from a state in which only the error counter has changed:
  it has grown by the number of files of the group, the tree and the moved counter are
  as before, so no file of the group was moved. The errors counted stay counted to the
  end of the run.
\<close>

theorem folder_create_failure_skips_group:
  "mkdir_exist_ok [] file_type (fs st) = Inl e \<Longrightarrow>
   process_groups ((file_type, files) # files_by_type) st
     = process_groups files_by_type (st\<lparr>total_errors := total_errors st + length files\<rparr>) \<and>
   total_errors st + length files
     \<le> total_errors (process_groups ((file_type, files) # files_by_type) st)"
  using process_groups_errors_mono[of "st\<lparr>total_errors := total_errors st + length files\<rparr>" files_by_type]
  by simp

theorem folder_create_failure_skips_group_witness:
  "mkdir_exist_ok [] ''TXT''
      (Dir [(''TXT'', File (0::nat)), (''a.txt'', File 1), (''b.txt'', File 2), (''c.pdf'', File 3)])
     = Inl FileExistsError \<and>
   process_groups
      [(''TXT'', [([], ''a.txt''), ([], ''b.txt'')]), (''PDF'', [([], ''c.pdf'')])]
      \<lparr>fs = Dir [(''TXT'', File (0::nat)), (''a.txt'', File 1), (''b.txt'', File 2), (''c.pdf'', File 3)],
       total_moved = 0, total_errors = 0\<rparr>
     = \<lparr>fs = Dir [(''TXT'', File 0), (''a.txt'', File 1), (''b.txt'', File 2),
                  (''PDF'', Dir [(''c.pdf'', File 3)])],
        total_moved = 1, total_errors = 2\<rparr>"
proof -
  let ?t = "Dir [(''TXT'', File (0::nat)), (''a.txt'', File 1), (''b.txt'', File 2), (''c.pdf'', File 3)]"
  let ?st = "\<lparr>fs = ?t, total_moved = 0, total_errors = 0\<rparr>"
  have h: "mkdir_exist_ok [] ''TXT'' (fs ?st) = Inl FileExistsError"
    by (simp add: mkdir_exist_ok_def)
  have r: "process_groups [(''PDF'', [([], ''c.pdf'')])]
             (?st\<lparr>total_errors := total_errors ?st + length [([], ''a.txt''), ([]::path, ''b.txt'')]\<rparr>)
           = \<lparr>fs = Dir [(''TXT'', File 0), (''a.txt'', File 1), (''b.txt'', File 2),
                  (''PDF'', Dir [(''c.pdf'', File 3)])],
        total_moved = 1, total_errors = 2\<rparr>"
    by code_simp
  from folder_create_failure_skips_group[OF h, of "[([], ''a.txt''), ([], ''b.txt'')]" "[(''PDF'', [([], ''c.pdf'')])]"]
    h r show ?thesis by simp
qed

section \<open>The scenario of three files\<close>

lemma mset_three_cases:
  assumes "mset es = {#x, y, z#}"
  shows "es \<in> {[x, y, z], [x, z, y], [y, x, z], [y, z, x], [z, x, y], [z, y, x]}"
proof -
  from assms have "size (mset es) = 3" by simp
  then have "length es = 3" by simp
  then obtain p q r where es: "es = [p, q, r]"
    by (auto simp: numeral_3_eq_3 length_Suc_conv)
  from assms have "add_mset p {#q, r#} = add_mset x {#y, z#}" unfolding es by simp
  then consider "p = x" "{#q, r#} = {#y, z#}"
    | K where "{#q, r#} = add_mset x K" "{#y, z#} = add_mset p K"
    by (auto simp: add_eq_conv_ex)
  then show ?thesis
  proof cases
    case 1
    then show ?thesis unfolding es by (auto simp: add_eq_conv_ex)
  next
    case 2
    then show ?thesis unfolding es by (auto simp: add_eq_conv_ex)
  qed
qed

lemma txt_names:
  "extension_key ''a.txt'' = ''TXT''" "extension_key ''b.txt'' = ''TXT''"
  "stem_of ''a.txt'' = ''a''" "stem_of ''b.txt'' = ''b''"
  "suffix_of ''a.txt'' = ''.txt''" "suffix_of ''b.txt'' = ''.txt''"
  "candidate ''b'' ''.txt'' (Suc 0) = ''b_1.txt''"
  by code_simp+

lemmas run_defs = organize_files_def get_all_files_def filenames_def dirnames_def
  mkdir_exist_ok_def shutil_move_def move_file_def find_dest.simps path_exists_def
  add_entry_def cleanup_empty_dirs_def Let_def

text \<open>
  Claim C4. A directory holds exactly \<open>a.txt\<close>, \<open>b.txt\<close> and the subdirectory \<open>sub\<close> with
  \<open>sub/b.txt\<close>, listed in any order. After one run \<open>TXT/a.txt\<close>, \<open>TXT/b.txt\<close> and
  \<open>TXT/b_1.txt\<close> exist (the last being the file that was in \<open>sub\<close>), they are all the
  files there are, \<open>sub\<close> is gone, and the summary reports 3 files moved and 0 errors.
\<close>

theorem scenario_three_files:
  assumes "mset es = {#(''a.txt'', File ca), (''b.txt'', File cb), (''sub'', Dir [(''b.txt'', File cc)])#}"
  shows "\<exists>t. organize_files (Some (Dir es)) = (Summary 3 0, Some t) \<and>
             lookup t [''TXT'', ''a.txt''] = Some (File ca) \<and>
             lookup t [''TXT'', ''b.txt''] = Some (File cb) \<and>
             lookup t [''TXT'', ''b_1.txt''] = Some (File cc) \<and>
             lookup t [''sub''] = None \<and>
             mset (get_all_files t)
               = {#([''TXT''], ''a.txt''), ([''TXT''], ''b.txt''), ([''TXT''], ''b_1.txt'')#}"
  using mset_three_cases[OF assms]
  by (elim insertE emptyE) (simp_all add: run_defs txt_names)

theorem scenario_three_files_witness:
  "mset [(''sub'', Dir [(''b.txt'', File 30)]), (''b.txt'', File 20), (''a.txt'', File (10::nat))]
     = {#(''a.txt'', File 10), (''b.txt'', File 20), (''sub'', Dir [(''b.txt'', File 30)])#} \<and>
   (\<exists>t. organize_files (Some (Dir [(''sub'', Dir [(''b.txt'', File 30)]), (''b.txt'', File 20),
                                    (''a.txt'', File (10::nat))])) = (Summary 3 0, Some t) \<and>
        lookup t [''TXT'', ''a.txt''] = Some (File 10) \<and>
        lookup t [''TXT'', ''b.txt''] = Some (File 20) \<and>
        lookup t [''TXT'', ''b_1.txt''] = Some (File 30) \<and>
        lookup t [''sub''] = None \<and>
        mset (get_all_files t)
          = {#([''TXT''], ''a.txt''), ([''TXT''], ''b.txt''), ([''TXT''], ''b_1.txt'')#})"
proof -
  have h: "mset [(''sub'', Dir [(''b.txt'', File 30)]), (''b.txt'', File 20), (''a.txt'', File (10::nat))]
     = {#(''a.txt'', File 10), (''b.txt'', File 20), (''sub'', Dir [(''b.txt'', File 30)])#}"
    by simp
  from scenario_three_files[OF h] h show ?thesis by blast
qed

section \<open>Properties of the Cleaner\<close>

text \<open>
  A tree is well formed when no directory lists a name twice, as no file system does.
\<close>

fun wf_node :: "'a node \<Rightarrow> bool"
  and wf_entries :: "'a entries \<Rightarrow> bool" where
  "wf_node (File c) = True"
| "wf_node (Dir es) = (distinct (map fst es) \<and> wf_entries es)"
| "wf_entries [] = True"
| "wf_entries ((n, c) # es) = (wf_node c \<and> wf_entries es)"


lemma map_of_remove_entry_other: "n \<noteq> d \<Longrightarrow> map_of (remove_entry d es) n = map_of es n"
  by (induction d es rule: remove_entry.induct) auto

lemma set_remove_entry_subset: "set (remove_entry d es) \<subseteq> set es"
  by (induction d es rule: remove_entry.induct) auto


lemma distinct_remove_entry: "distinct (map fst es) \<Longrightarrow> distinct (map fst (remove_entry d es))"
proof (induction d es rule: remove_entry.induct)
  case (1 n)
  show ?case by simp
next
  case (2 n m x es)
  then show ?case using set_remove_entry_subset[of n es] by auto
qed

lemma remove_empty_dirs_keeps:
  "n \<in> set ex \<or> map_of es n \<noteq> Some (Dir []) \<Longrightarrow>
   map_of (remove_empty_dirs ex ds es) n = map_of es n"
proof (induction ds arbitrary: es)
  case Nil
  show ?case by simp
next
  case (Cons d ds)
  let ?es = "if d \<in> set ex then es
             else (case map_of es d of Some (Dir []) \<Rightarrow> remove_entry d es | _ \<Rightarrow> es)"
  have same: "map_of ?es n = map_of es n"
    using Cons.prems
    by (cases "n = d") (auto simp: map_of_remove_entry_other split: option.splits node.splits list.splits)
  have "map_of (remove_empty_dirs ex ds ?es) n = map_of ?es n"
    by (rule Cons.IH) (use Cons.prems same in presburger)
  then show ?case using same by simp
qed



lemma map_of_cleanup_entries:
  "map_of (cleanup_entries ex es) n = map_option (cleanup_node ex) (map_of es n)"
  by (induction es) auto



lemma wf_entries_member: "wf_entries es \<Longrightarrow> (n, c) \<in> set es \<Longrightarrow> wf_node c"
  by (induction es) auto





lemma lookup_Dir_Cons:
  "lookup (Dir es) (n # p) = (case map_of es n of None \<Rightarrow> None | Some c \<Rightarrow> lookup c p)"
  by simp

lemma lookup_File_Cons: "lookup (File c) (n # p) = None"
  by simp

lemma lookup_Some_ConsD:
  "lookup t (n # p) = Some d \<Longrightarrow> \<exists>es c. t = Dir es \<and> map_of es n = Some c \<and> lookup c p = Some d"
  by (cases t) (auto split: option.splits)

lemma lookup_append:
  "lookup t (p @ q) = (case lookup t p of None \<Rightarrow> None | Some c \<Rightarrow> lookup c q)"
proof (induction p arbitrary: t)
  case Nil
  show ?case by simp
next
  case (Cons a p)
  show ?case
  proof (cases t)
    case (File c) then show ?thesis by simp
  next
    case (Dir es)
    then show ?thesis using Cons.IH by (simp split: option.splits)
  qed
qed

lemma lookup_empty_dir: "q \<noteq> [] \<Longrightarrow> lookup (Dir []) q = None"
  by (cases q) simp_all

text \<open>What the Cleaner keeps, on any tree.\<close>

lemma cleanup_keeps:
  "lookup t (p @ [n]) = Some d \<Longrightarrow> n \<in> set ex \<or> cleanup_node ex d \<noteq> Dir [] \<Longrightarrow>
   lookup (cleanup_node ex t) (p @ [n]) = Some (cleanup_node ex d)"
proof (induction p arbitrary: t)
  case Nil
  from Nil.prems(1) obtain es where t: "t = Dir es" and mo: "map_of es n = Some d"
    using lookup_Some_ConsD[of t n "[]" d] by auto
  have "map_of (cleanup_entries ex es) n = Some (cleanup_node ex d)"
    using mo by (simp add: map_of_cleanup_entries)
  moreover from this Nil.prems(2)
  have "n \<in> set ex \<or> map_of (cleanup_entries ex es) n \<noteq> Some (Dir [])" by auto
  ultimately show ?case using t remove_empty_dirs_keeps[of n ex "cleanup_entries ex es" "dirnames es"]
    by simp
next
  case (Cons a p)
  from Cons.prems(1) obtain es c where t: "t = Dir es" and mo: "map_of es a = Some c"
    and lc: "lookup c (p @ [n]) = Some d"
    using lookup_Some_ConsD[of t a "p @ [n]" d] by auto
  from Cons.IH[OF lc Cons.prems(2)]
  have ih: "lookup (cleanup_node ex c) (p @ [n]) = Some (cleanup_node ex d)" .
  then have ne: "cleanup_node ex c \<noteq> Dir []" by (auto simp: lookup_empty_dir)
  have mcl: "map_of (cleanup_entries ex es) a = Some (cleanup_node ex c)"
    using mo by (simp add: map_of_cleanup_entries)
  with ne have "a \<in> set ex \<or> map_of (cleanup_entries ex es) a \<noteq> Some (Dir [])" by simp
  from remove_empty_dirs_keeps[OF this, of "dirnames es"] mcl ih t show ?case by simp
qed




section \<open>The collision loop\<close>

lemma find_dest_free: "\<not> path_exists t (d @ [find_dest t d s x c n])"
proof (induction t d s x c n rule: find_dest.induct)
  case (1 t d s x c n)
  show ?case
  proof (cases "path_exists t (d @ [n])")
    case True
    with "1.IH" show ?thesis by (subst find_dest.simps) simp
  next
    case False
    then show ?thesis by (subst find_dest.simps) simp
  qed
qed



section \<open>Updates of the tree\<close>

fun content_of :: "'a node \<Rightarrow> 'a option" where
  "content_of (File c) = Some c"
| "content_of (Dir es) = None"

text \<open>
  \<open>kind_at t q\<close> tells what stands at path \<open>q\<close>: nothing (\<open>None\<close>), a directory
  (\<open>Some None\<close>) or a file with its content.
\<close>

definition kind_at :: "'a node \<Rightarrow> path \<Rightarrow> 'a option option" where
  "kind_at t q = map_option content_of (lookup t q)"

lemma kind_at_file: "kind_at t q = Some (Some c) \<longleftrightarrow> lookup t q = Some (File c)"
proof (cases "lookup t q")
  case None then show ?thesis by (simp add: kind_at_def)
next
  case (Some x) then show ?thesis by (cases x) (simp_all add: kind_at_def)
qed

lemma kind_at_dir: "kind_at t q = Some None \<longleftrightarrow> (\<exists>es. lookup t q = Some (Dir es))"
proof (cases "lookup t q")
  case None then show ?thesis by (simp add: kind_at_def)
next
  case (Some x) then show ?thesis by (cases x) (simp_all add: kind_at_def)
qed

lemma kind_at_none: "kind_at t q = None \<longleftrightarrow> lookup t q = None"
  by (simp add: kind_at_def)

lemma map_of_replace_entry_other: "m \<noteq> n \<Longrightarrow> map_of (replace_entry n y es) m = map_of es m"
  by (induction n y es rule: replace_entry.induct) auto

lemma map_of_replace_entry_same:
  "map_of es n = Some x \<Longrightarrow> map_of (replace_entry n y es) n = Some y"
  by (induction n y es rule: replace_entry.induct) (auto split: if_splits)

lemma map_of_add_entry_other: "m \<noteq> n \<Longrightarrow> map_of (add_entry n y es) m = map_of es m"
  by (simp add: add_entry_def map_add_def split: option.splits)

lemma map_of_add_entry_same: "map_of es n = None \<Longrightarrow> map_of (add_entry n y es) n = Some y"
  by (simp add: add_entry_def map_add_def)

text \<open>An update of the entry \<open>n\<close> of directory \<open>d\<close> is not seen outside \<open>d/n\<close>.\<close>

lemma update_dir_kind:
  assumes f: "\<And>es m. m \<noteq> n \<Longrightarrow> map_of (f es) m = map_of es m"
  shows "\<not> prefix (d @ [n]) q \<Longrightarrow> kind_at (update_dir d f t) q = kind_at t q"
proof (induction d arbitrary: t q)
  case Nil
  show ?case
  proof (cases t)
    case (File c) then show ?thesis by simp
  next
    case (Dir es)
    show ?thesis
    proof (cases q)
      case Nil then show ?thesis using Dir by (simp add: kind_at_def)
    next
      case (Cons m r)
      with Nil.prems have "m \<noteq> n" by simp
      then show ?thesis using Dir Cons f[of m es] by (simp add: kind_at_def)
    qed
  qed
next
  case (Cons a d)
  show ?case
  proof (cases t)
    case (File c) then show ?thesis by simp
  next
    case (Dir es)
    show ?thesis
    proof (cases "map_of es a")
      case None then show ?thesis using Dir by simp
    next
      case (Some c)
      show ?thesis
      proof (cases q)
        case Nil then show ?thesis using Dir Some by (simp add: kind_at_def)
      next
        case q: (Cons m r)
        show ?thesis
        proof (cases "m = a")
          case False
          then show ?thesis using Dir Some q by (simp add: kind_at_def map_of_replace_entry_other)
        next
          case True
          with Cons.prems q have "\<not> prefix (d @ [n]) r" by simp
          from Cons.IH[OF this, of c] show ?thesis
            using Dir Some q True by (simp add: kind_at_def map_of_replace_entry_same)
        qed
      qed
    qed
  qed
qed


subsection \<open>The contents of the files\<close>







subsection \<open>Well-formedness\<close>

lemma map_fst_replace_entry: "map fst (replace_entry n y es) = map fst es"
  by (induction n y es rule: replace_entry.induct) auto

lemma wf_entries_replace_entry:
  "wf_entries es \<Longrightarrow> wf_node y \<Longrightarrow> wf_entries (replace_entry n y es)"
  by (induction n y es rule: replace_entry.induct) auto

lemma wf_entries_remove_entry: "wf_entries es \<Longrightarrow> wf_entries (remove_entry n es)"
  by (induction n es rule: remove_entry.induct) auto

lemma wf_entries_append: "wf_entries (es @ es') \<longleftrightarrow> wf_entries es \<and> wf_entries es'"
  by (induction es) auto

lemma wf_update_dir:
  assumes f: "\<And>es. lookup t d = Some (Dir es) \<Longrightarrow> distinct (map fst es) \<Longrightarrow> wf_entries es \<Longrightarrow>
                distinct (map fst (f es)) \<and> wf_entries (f es)"
  shows "wf_node t \<Longrightarrow> wf_node (update_dir d f t)"
  using f
proof (induction d arbitrary: t)
  case Nil
  then show ?case by (cases t) simp_all
next
  case (Cons a d)
  show ?case
  proof (cases t)
    case (File c) then show ?thesis by simp
  next
    case (Dir es0)
    show ?thesis
    proof (cases "map_of es0 a")
      case None then show ?thesis using Dir Cons.prems(1) by simp
    next
      case (Some c)
      then have mem: "(a, c) \<in> set es0" by (rule map_of_SomeD)
      have wc: "wf_node c" using Cons.prems(1) Dir mem by (auto intro: wf_entries_member)
      have "wf_node (update_dir d f c)"
      proof (rule Cons.IH[OF wc])
        fix es assume "lookup c d = Some (Dir es)" "distinct (map fst es)" "wf_entries es"
        then show "distinct (map fst (f es)) \<and> wf_entries (f es)"
          using Cons.prems(2)[of es] Dir Some by simp
      qed
      then show ?thesis using Dir Some Cons.prems(1)
        by (simp add: map_fst_replace_entry wf_entries_replace_entry)
    qed
  qed
qed

lemma lookup_below_file: "lookup t p = Some (File c) \<Longrightarrow> q \<noteq> [] \<Longrightarrow> lookup t (p @ q) = None"
  by (cases q) (simp_all add: lookup_append)

lemma lookup_below_none: "lookup t p = None \<Longrightarrow> lookup t (p @ q) = None"
  by (simp add: lookup_append)


lemma lookup_child:
  "lookup t d = Some (Dir es) \<Longrightarrow> lookup t (d @ [n]) = map_of es n"
  by (simp add: lookup_append split: option.splits)

subsection \<open>Creating the destination folder\<close>

lemma mkdir_cases:
  assumes "mkdir_exist_ok [] k t = Inr t'"
  obtains (existing) es where "lookup t [k] = Some (Dir es)" "t' = t"
  | (created) es where "lookup t [k] = None" "t = Dir es" "t' = Dir (add_entry k (Dir []) es)"
proof (cases "lookup t [k]")
  case None
  with assms obtain es where "t = Dir es" "t' = Dir (add_entry k (Dir []) es)"
    by (cases t) (auto simp: mkdir_exist_ok_def)
  with None created show ?thesis by blast
next
  case (Some x)
  with assms obtain es where "x = Dir es" "t' = t"
    by (cases x) (auto simp: mkdir_exist_ok_def)
  with Some existing show ?thesis by blast
qed

lemma mkdir_fails_iff:
  "(\<exists>e. mkdir_exist_ok [] k (Dir es) = Inl e) \<longleftrightarrow> (\<exists>c. lookup (Dir es) [k] = Some (File c))"
  by (auto simp: mkdir_exist_ok_def split: option.splits node.splits)

lemma mkdir_is_dir:
  assumes "mkdir_exist_ok [] k t = Inr t'"
  shows "\<exists>es. lookup t' [k] = Some (Dir es)"
  using assms
proof (cases rule: mkdir_cases)
  case (existing es)
  then show ?thesis by simp
next
  case (created es)
  then have "map_of es k = None" by (simp split: option.splits)
  then show ?thesis using created by (simp add: map_of_add_entry_same)
qed

lemma mkdir_kind:
  assumes "mkdir_exist_ok [] k t = Inr t'" "q \<noteq> [k]"
  shows "kind_at t' q = kind_at t q"
  using assms(1)
proof (cases rule: mkdir_cases)
  case (existing es)
  then show ?thesis by simp
next
  case (created es)
  then have none: "map_of es k = None" by (simp split: option.splits)
  show ?thesis
  proof (cases q)
    case Nil
    then show ?thesis using created by (simp add: kind_at_def)
  next
    case (Cons m r)
    show ?thesis
    proof (cases "m = k")
      case False
      then show ?thesis using created Cons by (simp add: kind_at_def map_of_add_entry_other)
    next
      case True
      with Cons assms(2) have "r \<noteq> []" by simp
      then show ?thesis using created Cons True none
        by (simp add: kind_at_def map_of_add_entry_same lookup_empty_dir)
    qed
  qed
qed


lemma mkdir_wf:
  assumes "mkdir_exist_ok [] k t = Inr t'" "wf_node t"
  shows "wf_node t'"
  using assms(1)
proof (cases rule: mkdir_cases)
  case (existing es)
  then show ?thesis using assms(2) by simp
next
  case (created es)
  then have "map_of es k = None" by (simp split: option.splits)
  then have "k \<notin> fst ` set es" by (simp add: map_of_eq_None_iff)
  then show ?thesis using created assms(2) by (simp add: add_entry_def wf_entries_append)
qed

subsection \<open>Moving a file to a free name\<close>

lemma shutil_move_fresh:
  assumes "lookup t (dd @ [dn]) = None"
  shows "shutil_move (sd, sn) (dd, dn) t = Inr t' \<longleftrightarrow>
         (\<exists>c es. lookup t (sd @ [sn]) = Some (File c) \<and> lookup t dd = Some (Dir es) \<and>
                 t' = update_dir dd (add_entry dn (File c)) (update_dir sd (remove_entry sn) t))"
  using assms by (auto simp: shutil_move_def split: option.splits node.splits)

lemma shutil_move_fresh_fails:
  assumes "lookup t (dd @ [dn]) = None"
  shows "(\<exists>e. shutil_move (sd, sn) (dd, dn) t = Inl e) \<longleftrightarrow>
         \<not> ((\<exists>c. lookup t (sd @ [sn]) = Some (File c)) \<and> (\<exists>es. lookup t dd = Some (Dir es)))"
  using assms by (auto simp: shutil_move_def split: option.splits node.splits)

lemma remove_entry_touches: "m \<noteq> n \<Longrightarrow> map_of (remove_entry n es) m = map_of es m"
  by (rule map_of_remove_entry_other)

lemma not_prefix_of_existing:
  assumes "lookup t s = Some (File c)" "lookup t q = Some x" "q \<noteq> s"
  shows "\<not> prefix s q"
proof
  assume "prefix s q"
  then obtain r where q: "q = s @ r" by (auto simp: prefix_def)
  with assms(3) have "r \<noteq> []" by auto
  from lookup_below_file[OF assms(1) this] assms(2) q show False by simp
qed

lemma not_prefix_of_absent:
  assumes "lookup t s = None" "lookup t q = Some x"
  shows "\<not> prefix s q"
proof
  assume "prefix s q"
  then obtain r where q: "q = s @ r" by (auto simp: prefix_def)
  from lookup_below_none[OF assms(1), of r] assms(2) q show False by simp
qed

text \<open>
  The facts below are about the tree after the rename of the file \<open>sd/sn\<close> to the free
  name \<open>dd/dn\<close> in the directory \<open>dd\<close>.
\<close>

lemma move_kind:
  assumes "\<not> prefix (sd @ [sn]) q" "\<not> prefix (dd @ [dn]) q"
  shows "kind_at (update_dir dd (add_entry dn y) (update_dir sd (remove_entry sn) t)) q = kind_at t q"
proof -
  have "kind_at (update_dir dd (add_entry dn y) (update_dir sd (remove_entry sn) t)) q
        = kind_at (update_dir sd (remove_entry sn) t) q"
    by (rule update_dir_kind[OF _ assms(2)]) (rule map_of_add_entry_other)
  also have "\<dots> = kind_at t q"
    by (rule update_dir_kind[OF _ assms(1)]) (rule map_of_remove_entry_other)
  finally show ?thesis .
qed

lemma move_keeps:
  assumes src: "lookup t (sd @ [sn]) = Some (File c)" and dst: "lookup t (dd @ [dn]) = None"
    and q: "lookup t q = Some x" "q \<noteq> sd @ [sn]"
  shows "kind_at (update_dir dd (add_entry dn y) (update_dir sd (remove_entry sn) t)) q = kind_at t q"
  using not_prefix_of_existing[OF src q] not_prefix_of_absent[OF dst q(1)] by (rule move_kind)



lemma move_wf:
  assumes src: "lookup t (sd @ [sn]) = Some (File c)" and dst: "lookup t (dd @ [dn]) = None"
    and par: "lookup t dd = Some (Dir es)" and wf: "wf_node t"
  shows "wf_node (update_dir dd (add_entry dn (File c)) (update_dir sd (remove_entry sn) t))"
proof -
  let ?t1 = "update_dir sd (remove_entry sn) t"
  have wf1: "wf_node ?t1"
    by (rule wf_update_dir[OF _ wf]) (simp add: distinct_remove_entry wf_entries_remove_entry)
  have "dd \<noteq> sd @ [sn]" using src par by auto
  from not_prefix_of_existing[OF src par this]
  have np: "\<not> prefix (sd @ [sn]) dd" .
  have np2: "\<not> prefix (sd @ [sn]) (dd @ [dn])"
  proof
    assume "prefix (sd @ [sn]) (dd @ [dn])"
    then have "sd @ [sn] = dd @ [dn] \<or> prefix (sd @ [sn]) dd" by auto
    with np src dst show False by auto
  qed
  have "kind_at ?t1 (dd @ [dn]) = kind_at t (dd @ [dn])"
    by (rule update_dir_kind[OF _ np2]) (rule map_of_remove_entry_other)
  then have absent: "lookup ?t1 (dd @ [dn]) = None" using dst by (simp add: kind_at_def)
  show ?thesis
  proof (rule wf_update_dir[OF _ wf1])
    fix es1 assume par1: "lookup ?t1 dd = Some (Dir es1)" and d: "distinct (map fst es1)"
      and w: "wf_entries es1"
    from absent lookup_child[OF par1, of dn] have "map_of es1 dn = None" by simp
    then have "dn \<notin> fst ` set es1" by (simp add: map_of_eq_None_iff)
    then show "distinct (map fst (add_entry dn (File c) es1)) \<and> wf_entries (add_entry dn (File c) es1)"
      using d w by (simp add: add_entry_def wf_entries_append)
  qed
qed


section \<open>One step of the Mover\<close>

lemma move_file_cases:
  obtains (skipped) "fst p = [k]" "move_file k p st = st"
  | (moved) c es dn where "fst p \<noteq> [k]"
      "dn = find_dest (fs st) [k] (stem_of (snd p)) (suffix_of (snd p)) 1 (snd p)"
      "lookup (fs st) (fst p @ [snd p]) = Some (File c)"
      "lookup (fs st) [k] = Some (Dir es)"
      "lookup (fs st) ([k] @ [dn]) = None"
      "move_file k p st
         = st\<lparr>fs := update_dir [k] (add_entry dn (File c))
                        (update_dir (fst p) (remove_entry (snd p)) (fs st)),
               total_moved := total_moved st + 1\<rparr>"
  | (failed) "fst p \<noteq> [k]"
      "\<not> ((\<exists>c. lookup (fs st) (fst p @ [snd p]) = Some (File c)) \<and>
          (\<exists>es. lookup (fs st) [k] = Some (Dir es)))"
      "move_file k p st = st\<lparr>total_errors := total_errors st + 1\<rparr>"
proof (cases "fst p = [k]")
  case True
  then have "move_file k p st = st" by (simp add: move_file_def)
  with True skipped show ?thesis by blast
next
  case False
  define dn where "dn = find_dest (fs st) [k] (stem_of (snd p)) (suffix_of (snd p)) 1 (snd p)"
  have free: "lookup (fs st) ([k] @ [dn]) = None"
    using find_dest_free[of "fs st" "[k]" "stem_of (snd p)" "suffix_of (snd p)" 1 "snd p"]
    unfolding dn_def path_exists_def by simp
  show ?thesis
  proof (cases "shutil_move p ([k], dn) (fs st)")
    case (Inl e)
    then have "\<exists>e. shutil_move (fst p, snd p) ([k], dn) (fs st) = Inl e" by auto
    then have "\<not> ((\<exists>c. lookup (fs st) (fst p @ [snd p]) = Some (File c)) \<and>
          (\<exists>es. lookup (fs st) [k] = Some (Dir es)))"
      using shutil_move_fresh_fails[OF free, of "fst p" "snd p"] by simp
    moreover have "move_file k p st = st\<lparr>total_errors := total_errors st + 1\<rparr>"
      using False Inl by (simp add: move_file_def dn_def)
    ultimately show ?thesis using False failed by blast
  next
    case (Inr t')
    then have "shutil_move (fst p, snd p) ([k], dn) (fs st) = Inr t'" by simp
    then obtain c es where "lookup (fs st) (fst p @ [snd p]) = Some (File c)"
      "lookup (fs st) [k] = Some (Dir es)"
      "t' = update_dir [k] (add_entry dn (File c)) (update_dir (fst p) (remove_entry (snd p)) (fs st))"
      using shutil_move_fresh[OF free, of "fst p" "snd p" t'] by blast
    moreover have "move_file k p st = st\<lparr>fs := t', total_moved := total_moved st + 1\<rparr>"
      using False Inr by (simp add: move_file_def dn_def)
    ultimately show ?thesis using False free dn_def moved[of dn c es] by simp
  qed
qed


lemma move_file_wf: "wf_node (fs st) \<Longrightarrow> wf_node (fs (move_file k p st))"
proof (cases k p st rule: move_file_cases)
  case skipped
  assume "wf_node (fs st)"
  with skipped show ?thesis by simp
next
  case (moved c es dn)
  assume "wf_node (fs st)"
  with moved show ?thesis using move_wf[of "fs st" "fst p" "snd p" c "[k]" dn es] by simp
next
  case failed
  assume "wf_node (fs st)"
  with failed show ?thesis by simp
qed

lemma move_file_keeps:
  assumes "lookup (fs st) q = Some x" "q \<noteq> fst p @ [snd p]"
  shows "kind_at (fs (move_file k p st)) q = kind_at (fs st) q"
proof (cases k p st rule: move_file_cases)
  case skipped
  then show ?thesis by simp
next
  case (moved c es dn)
  then show ?thesis using move_keeps[OF moved(3) moved(5) assms] by simp
next
  case failed
  then show ?thesis by simp
qed

lemma move_file_keeps_dir:
  assumes "lookup (fs st) q = Some (Dir es)"
  shows "\<exists>es'. lookup (fs (move_file k p st)) q = Some (Dir es')"
proof (cases "q = fst p @ [snd p]")
  case False
  from move_file_keeps[OF assms False, of k] assms show ?thesis
    using kind_at_dir[of "fs (move_file k p st)" q] kind_at_dir[of "fs st" q] by auto
next
  case True
  then have "\<not> (\<exists>c. lookup (fs st) (fst p @ [snd p]) = Some (File c))" using assms by simp
  then show ?thesis using assms by (cases k p st rule: move_file_cases) auto
qed


lemma move_files_wf: "wf_node (fs st) \<Longrightarrow> wf_node (fs (move_files k ps st))"
  by (induction ps arbitrary: st) (simp_all add: move_file_wf)


lemma mkdir_keeps_dir:
  assumes "mkdir_exist_ok [] k t = Inr t'" "lookup t q = Some (Dir es)"
  shows "\<exists>es'. lookup t' q = Some (Dir es')"
proof (cases "q = [k]")
  case True
  then show ?thesis using mkdir_is_dir[OF assms(1)] by simp
next
  case False
  from mkdir_kind[OF assms(1) False] assms(2) show ?thesis
    using kind_at_dir[of t' q] kind_at_dir[of t q] by auto
qed


lemma process_groups_wf: "wf_node (fs st) \<Longrightarrow> wf_node (fs (process_groups g st))"
proof (induction g arbitrary: st)
  case Nil
  then show ?case by simp
next
  case (Cons a g)
  obtain k ps where a: "a = (k, ps)" by (cases a)
  show ?case
  proof (cases "mkdir_exist_ok [] k (fs st)")
    case (Inl e)
    then show ?thesis using a Cons.IH[of "st\<lparr>total_errors := total_errors st + length ps\<rparr>"] Cons.prems
      by simp
  next
    case (Inr t)
    have "wf_node (fs (move_files k ps (st\<lparr>fs := t\<rparr>)))"
      using mkdir_wf[OF Inr Cons.prems] by (intro move_files_wf) simp
    from Cons.IH[OF this] show ?thesis using a Inr by simp
  qed
qed


section \<open>The Cleaner removes no file\<close>











section \<open>Properties of the grouping\<close>

lemma add_to_group_keys: "fst ` set (add_to_group k p g) = insert k (fst ` set g)"
  by (induction k p g rule: add_to_group.induct) auto

lemma group_files_keys:
  "fst ` set (group_files ps g) = (\<lambda>p. extension_key (snd p)) ` set ps \<union> fst ` set g"
proof (induction ps g rule: group_files.induct)
  case (1 files_by_type)
  show ?case by simp
next
  case (2 file_path ps files_by_type)
  then show ?case by (simp add: add_to_group_keys)
qed

lemma add_to_group_mset:
  "mset (concat (map snd (add_to_group k p g))) = add_mset p (mset (concat (map snd g)))"
  by (induction k p g rule: add_to_group.induct) auto

lemma group_files_mset:
  "mset (concat (map snd (group_files ps g))) = mset ps + mset (concat (map snd g))"
  by (induction ps g rule: group_files.induct) (auto simp: add_to_group_mset)





lemma group_files_distinct:
  "distinct ps \<Longrightarrow> distinct (concat (map snd (group_files ps [])))"
proof -
  assume d: "distinct ps"
  have "mset (concat (map snd (group_files ps []))) = mset ps"
    using group_files_mset[of ps "[]"] by simp
  from mset_eq_imp_distinct_iff[OF this] d show ?thesis by simp
qed

section \<open>What the Cleaner removes and what it keeps\<close>




section \<open>The scan and the tree\<close>



lemma filenames_memberD: "f \<in> set (filenames es) \<Longrightarrow> \<exists>c. (f, File c) \<in> set es"
proof -
  assume "f \<in> set (filenames es)"
  then obtain x where "(f, x) \<in> set es" "\<not> is_dir x" by (auto simp: filenames_def)
  then show ?thesis by (cases x) auto
qed


text \<open>On a well-formed tree the scan finds files of the tree only, each once.\<close>

lemma walk_in_lookup_aux:
  "wf_node (t :: 'a node) \<longrightarrow>
     (\<forall>p f. (p, f) \<in> set (walk_node dp t) \<longrightarrow>
        (\<exists>d c. p = dp @ d \<and> lookup t (d @ [f]) = Some (File c)))"
  "wf_entries (es :: 'a entries) \<and> distinct (map fst es) \<longrightarrow>
     (\<forall>p f. (p, f) \<in> set (walk_entries dp es) \<longrightarrow>
        (\<exists>n c' d c. map_of es n = Some c' \<and> p = dp @ n # d \<and> lookup c' (d @ [f]) = Some (File c)))"
proof (induction dp t and dp es rule: walk_node_walk_entries.induct)
  case (1 dirpath c)
  show ?case by simp
next
  case (2 dirpath es)
  show ?case
  proof (intro impI allI)
    fix p f assume wf: "wf_node (Dir es)" and mem: "(p, f) \<in> set (walk_node dirpath (Dir es))"
    from wf have we: "wf_entries es \<and> distinct (map fst es)" by simp
    from mem consider "p = dirpath" "f \<in> set (filenames es)" | "(p, f) \<in> set (walk_entries dirpath es)"
      by auto
    then show "\<exists>d c. p = dirpath @ d \<and> lookup (Dir es) (d @ [f]) = Some (File c)"
    proof cases
      case 1
      from filenames_memberD[OF 1(2)] obtain c where "(f, File c) \<in> set es" by blast
      then have "map_of es f = Some (File c)" using we by simp
      then show ?thesis using 1(1) by (intro exI[of _ "[]"] exI[of _ c]) simp
    next
      case 2
      with "2.IH" we obtain n c' d c where "map_of es n = Some c'" "p = dirpath @ n # d"
        "lookup c' (d @ [f]) = Some (File c)" by blast
      then show ?thesis by (intro exI[of _ "n # d"] exI[of _ c]) simp
    qed
  qed
next
  case (3 dirpath)
  show ?case by simp
next
  case (4 dirpath n c es)
  show ?case
  proof (intro impI allI)
    fix p f
    assume wf: "wf_entries ((n, c) # es) \<and> distinct (map fst ((n, c) # es))"
      and mem: "(p, f) \<in> set (walk_entries dirpath ((n, c) # es))"
    from wf have wc: "wf_node c" and we: "wf_entries es \<and> distinct (map fst es)"
      and fresh: "n \<notin> fst ` set es" by simp_all
    from mem consider "(p, f) \<in> set (walk_node (dirpath @ [n]) c)"
      | "(p, f) \<in> set (walk_entries dirpath es)" by auto
    then show "\<exists>m c' d c0. map_of ((n, c) # es) m = Some c' \<and> p = dirpath @ m # d \<and>
        lookup c' (d @ [f]) = Some (File c0)"
    proof cases
      case 1
      with "4.IH"(1) wc obtain d c0 where "p = (dirpath @ [n]) @ d" "lookup c (d @ [f]) = Some (File c0)"
        by blast
      then show ?thesis by (intro exI[of _ n] exI[of _ c] exI[of _ d] exI[of _ c0]) simp
    next
      case 2
      with "4.IH"(2) we obtain m c' d c0 where m: "map_of es m = Some c'" "p = dirpath @ m # d"
        "lookup c' (d @ [f]) = Some (File c0)" by blast
      from m(1) have "m \<in> fst ` set es" by (force dest: map_of_SomeD)
      with fresh have "m \<noteq> n" by auto
      with m show ?thesis by (intro exI[of _ m] exI[of _ c'] exI[of _ d] exI[of _ c0]) simp
    qed
  qed
qed

lemma walk_in_lookup:
  "wf_node t \<Longrightarrow> (p, f) \<in> set (get_all_files t) \<Longrightarrow> \<exists>c. lookup t (p @ [f]) = Some (File c)"
  using walk_in_lookup_aux(1)[of t "[]"] by (auto simp: get_all_files_def)


lemma walk_prefix:
  "\<forall>p f. (p, f) \<in> set (walk_node dp (t :: 'a node)) \<longrightarrow> prefix dp p"
  "\<forall>p f. (p, f) \<in> set (walk_entries dp (es :: 'a entries)) \<longrightarrow>
      (\<exists>n \<in> fst ` set es. prefix (dp @ [n]) p)"
proof (induction dp t and dp es rule: walk_node_walk_entries.induct)
  case (1 dirpath c)
  show ?case by simp
next
  case (2 dirpath es)
  then show ?case by (auto dest: append_prefixD)
next
  case (3 dirpath)
  show ?case by simp
next
  case (4 dirpath n c es)
  then show ?case by auto
qed

lemma distinct_walk:
  "wf_node (t :: 'a node) \<longrightarrow> distinct (walk_node dp t)"
  "wf_entries (es :: 'a entries) \<and> distinct (map fst es) \<longrightarrow> distinct (walk_entries dp es)"
proof (induction dp t and dp es rule: walk_node_walk_entries.induct)
  case (1 dirpath c)
  show ?case by simp
next
  case (2 dirpath es)
  show ?case
  proof
    assume wf: "wf_node (Dir es)"
    then have d: "distinct (map fst es)" and we: "wf_entries es" by simp_all
    have "distinct (filenames es)"
      unfolding filenames_def using d by (rule distinct_map_filter)
    then have d1: "distinct (map (Pair dirpath) (filenames es))"
      by (simp add: distinct_map inj_on_def)
    have d2: "distinct (walk_entries dirpath es)" using "2.IH" d we by simp
    have "set (map (Pair dirpath) (filenames es)) \<inter> set (walk_entries dirpath es) = {}"
    proof (rule ccontr)
      assume "set (map (Pair dirpath) (filenames es)) \<inter> set (walk_entries dirpath es) \<noteq> {}"
      then obtain f where "(dirpath, f) \<in> set (walk_entries dirpath es)" by auto
      with walk_prefix(2)[of dirpath es] obtain n where "prefix (dirpath @ [n]) dirpath" by blast
      then show False by (auto simp: prefix_def)
    qed
    with d1 d2 show "distinct (walk_node dirpath (Dir es))" by simp
  qed
next
  case (3 dirpath)
  show ?case by simp
next
  case (4 dirpath n c es)
  show ?case
  proof
    assume wf: "wf_entries ((n, c) # es) \<and> distinct (map fst ((n, c) # es))"
    then have wc: "wf_node c" and we: "wf_entries es \<and> distinct (map fst es)"
      and fresh: "n \<notin> fst ` set es" by simp_all
    have d1: "distinct (walk_node (dirpath @ [n]) c)" using "4.IH"(1) wc by simp
    have d2: "distinct (walk_entries dirpath es)" using "4.IH"(2) we by simp
    have "set (walk_node (dirpath @ [n]) c) \<inter> set (walk_entries dirpath es) = {}"
    proof (rule ccontr)
      assume "set (walk_node (dirpath @ [n]) c) \<inter> set (walk_entries dirpath es) \<noteq> {}"
      then obtain p f where a: "(p, f) \<in> set (walk_node (dirpath @ [n]) c)"
        and b: "(p, f) \<in> set (walk_entries dirpath es)" by auto
      from a walk_prefix(1)[of "dirpath @ [n]" c] have pa: "prefix (dirpath @ [n]) p" by blast
      from b walk_prefix(2)[of dirpath es] obtain m where m: "m \<in> fst ` set es"
        and pb: "prefix (dirpath @ [m]) p" by blast
      from pa pb have "n = m" by (auto simp: prefix_def append_eq_append_conv2 Cons_eq_append_conv)
      with m fresh show False by simp
    qed
    with d1 d2 show "distinct (walk_entries dirpath ((n, c) # es))" by simp
  qed
qed

lemma distinct_get_all_files: "wf_node t \<Longrightarrow> distinct (get_all_files t)"
  using distinct_walk(1)[of t "[]"] by (simp add: get_all_files_def)

section \<open>Renamed files keep their key\<close>


lemma underscore_not_dot: "CHR ''.'' \<notin> set ''_''"
  by simp



section \<open>The Cleaner keeps a tree well formed\<close>



section \<open>An invariant rule for the Mover\<close>



section \<open>A second run\<close>











section \<open>The organizer over an operating system that can refuse\<close>

text \<open>
  The sections above run the organizer on a file system that answers every question
  about the tree and permits every operation. The program itself makes no such
  assumption: it calls \<^verbatim>\<open>str.upper\<close>, \<^verbatim>\<open>Path.resolve\<close>, \<^verbatim>\<open>Path.exists\<close>, \<^verbatim>\<open>Path.mkdir\<close>,
  \<^verbatim>\<open>shutil.move\<close> and \<^verbatim>\<open>Path.rmdir\<close> and takes what they give. This section is the same
  code with those calls left open, as the fields of an operating system \<open>os\<close>:

  \<^item> \<open>str_upper\<close> is \<^verbatim>\<open>str.upper\<close> on file names, which are byte strings here (the UTF-8
    encoding of the name; the dot is one byte and is part of no other character, so
    \<^verbatim>\<open>Path.suffix\<close> and \<^verbatim>\<open>Path.stem\<close> cut a name at the same place in both readings);
  \<^item> \<open>path_exists_os\<close> is \<^verbatim>\<open>Path.exists\<close>: an answer, or the exception it raises (it
    raises \<^verbatim>\<open>OSError\<close> for a name longer than the file system allows), and the answer
    may be \<open>False\<close> although the name is taken (a dangling symbolic link);
  \<^item> \<open>mkdir_refused\<close> is the exception \<^verbatim>\<open>Path.mkdir\<close> raises for a reason that the tree
    does not show (a permission); otherwise the folder is made as in \<open>mkdir_exist_ok\<close>;
  \<^item> \<open>shutil_move_os\<close> is \<^verbatim>\<open>shutil.move\<close>: the tree after the move, or the exception
    raised together with the tree the failed move left behind (\<^verbatim>\<open>shutil.move\<close> falls
    back on copying the file and unlinking the source when the rename fails);
  \<^item> \<open>rmdir_refused\<close> tells for which directories \<^verbatim>\<open>iterdir\<close> or \<^verbatim>\<open>rmdir\<close> raises.
\<close>

record 'a os =
  str_upper :: "string \<Rightarrow> string"
  path_exists_os :: "'a node \<Rightarrow> path \<Rightarrow> error + bool"
  mkdir_refused :: "string \<Rightarrow> 'a node \<Rightarrow> error option"
  shutil_move_os :: "fpath \<Rightarrow> fpath \<Rightarrow> 'a node \<Rightarrow> (error \<times> 'a node) + 'a node"
  rmdir_refused :: "path \<Rightarrow> bool"

text \<open>Lines 58 to 62 with \<^verbatim>\<open>str.upper\<close> left open, and the grouping that uses them.\<close>

definition extension_key_os :: "(string \<Rightarrow> string) \<Rightarrow> string \<Rightarrow> string" where
  "extension_key_os up name =
     (let extension = up (lstrip CHR ''.'' (suffix_of name))
      in if extension = [] then ''NO_EXTENSION'' else extension)"

fun group_files_os :: "(string \<Rightarrow> string) \<Rightarrow> fpath list \<Rightarrow> groups \<Rightarrow> groups" where
  "group_files_os up [] files_by_type = files_by_type"
| "group_files_os up (file_path # ps) files_by_type =
     group_files_os up ps
       (add_to_group (extension_key_os up (snd file_path)) file_path files_by_type)"

text \<open>
  The collision loop of lines 91 to 97. \<^verbatim>\<open>dest_file.exists()\<close> stands outside the
  \<^verbatim>\<open>try\<close> of line 99, so an exception it raises leaves the loop and the run. With an
  arbitrary \<^verbatim>\<open>exists\<close> the loop need not end; not ending is the value \<open>None\<close>.
\<close>

partial_function (option) find_dest_os ::
  "'a os \<Rightarrow> 'a node \<Rightarrow> path \<Rightarrow> string \<Rightarrow> string \<Rightarrow> nat \<Rightarrow> string \<Rightarrow> (error + string) option" where
  "find_dest_os os t dest_folder original_stem sfx counter dest_name =
     (case path_exists_os os t (dest_folder @ [dest_name]) of
        Inl e \<Rightarrow> Some (Inl e)
      | Inr occupied \<Rightarrow>
          if occupied
          then find_dest_os os t dest_folder original_stem sfx (counter + 1)
                 (candidate original_stem sfx counter)
          else Some (Inr dest_name))"

declare find_dest_os.simps [code]

text \<open>
  The Mover. A step ends in a state (\<open>Inr\<close>), or in an exception that nothing catches
  together with the state at that moment (\<open>Inl\<close>). A failed \<^verbatim>\<open>shutil.move\<close> is caught by
  line 104 and counted; the tree is the one the failed move left.
\<close>

type_synonym 'a progress = "(error \<times> 'a state) + 'a state"

definition move_file_os :: "'a os \<Rightarrow> string \<Rightarrow> fpath \<Rightarrow> 'a state \<Rightarrow> 'a progress option" where
  "move_file_os os file_type file_path st =
     (let dest_folder = [file_type] in
      if fst file_path = dest_folder then Some (Inr st)
      else
        case find_dest_os os (fs st) dest_folder (stem_of (snd file_path))
               (suffix_of (snd file_path)) 1 (snd file_path) of
          None \<Rightarrow> None
        | Some (Inl e) \<Rightarrow> Some (Inl (e, st))
        | Some (Inr dest_name) \<Rightarrow>
            (case shutil_move_os os file_path (dest_folder, dest_name) (fs st) of
               Inr t \<Rightarrow> Some (Inr (st\<lparr>fs := t, total_moved := total_moved st + 1\<rparr>))
             | Inl (e, t) \<Rightarrow> Some (Inr (st\<lparr>fs := t, total_errors := total_errors st + 1\<rparr>))))"

fun move_files_os :: "'a os \<Rightarrow> string \<Rightarrow> fpath list \<Rightarrow> 'a state \<Rightarrow> 'a progress option" where
  "move_files_os os file_type [] st = Some (Inr st)"
| "move_files_os os file_type (file_path # files) st =
     (case move_file_os os file_type file_path st of
        Some (Inr st') \<Rightarrow> move_files_os os file_type files st'
      | r \<Rightarrow> r)"

definition mkdir_os :: "'a os \<Rightarrow> string \<Rightarrow> 'a node \<Rightarrow> error + 'a node" where
  "mkdir_os os file_type t =
     (case mkdir_refused os file_type t of
        Some e \<Rightarrow> Inl e
      | None \<Rightarrow> mkdir_exist_ok [] file_type t)"

fun process_groups_os :: "'a os \<Rightarrow> groups \<Rightarrow> 'a state \<Rightarrow> 'a progress option" where
  "process_groups_os os [] st = Some (Inr st)"
| "process_groups_os os ((file_type, files) # files_by_type) st =
     (case mkdir_os os file_type (fs st) of
        Inl e \<Rightarrow>
          process_groups_os os files_by_type
            (st\<lparr>total_errors := total_errors st + length files\<rparr>)
      | Inr t \<Rightarrow>
          (case move_files_os os file_type files (st\<lparr>fs := t\<rparr>) of
             Some (Inr st') \<Rightarrow> process_groups_os os files_by_type st'
           | r \<Rightarrow> r))"

text \<open>
  The Cleaner, with the \<^verbatim>\<open>try\<close> of lines 136 to 143: a directory for which \<^verbatim>\<open>iterdir\<close> or
  \<^verbatim>\<open>rmdir\<close> raises is left where it is.
\<close>

fun remove_empty_dirs_os ::
  "(path \<Rightarrow> bool) \<Rightarrow> string list \<Rightarrow> path \<Rightarrow> string list \<Rightarrow> 'a entries \<Rightarrow> 'a entries" where
  "remove_empty_dirs_os refused exclude_folders dirpath [] es = es"
| "remove_empty_dirs_os refused exclude_folders dirpath (dir_name # dirs) es =
     remove_empty_dirs_os refused exclude_folders dirpath dirs
       (if dir_name \<in> set exclude_folders then es
        else (case map_of es dir_name of
                Some (Dir []) \<Rightarrow>
                  if refused (dirpath @ [dir_name]) then es else remove_entry dir_name es
              | _ \<Rightarrow> es))"

fun cleanup_node_os :: "(path \<Rightarrow> bool) \<Rightarrow> string list \<Rightarrow> path \<Rightarrow> 'a node \<Rightarrow> 'a node"
  and cleanup_entries_os :: "(path \<Rightarrow> bool) \<Rightarrow> string list \<Rightarrow> path \<Rightarrow> 'a entries \<Rightarrow> 'a entries" where
  "cleanup_node_os refused exclude_folders dirpath (File c) = File c"
| "cleanup_node_os refused exclude_folders dirpath (Dir es) =
     Dir (remove_empty_dirs_os refused exclude_folders dirpath (dirnames es)
            (cleanup_entries_os refused exclude_folders dirpath es))"
| "cleanup_entries_os refused exclude_folders dirpath [] = []"
| "cleanup_entries_os refused exclude_folders dirpath ((n, c) # es) =
     (n, cleanup_node_os refused exclude_folders (dirpath @ [n]) c)
       # cleanup_entries_os refused exclude_folders dirpath es"

definition cleanup_empty_dirs_os :: "'a os \<Rightarrow> 'a node \<Rightarrow> string list \<Rightarrow> 'a node" where
  "cleanup_empty_dirs_os os directory exclude_folders =
     cleanup_node_os (rmdir_refused os) exclude_folders [] directory"

text \<open>
  \<^verbatim>\<open>organize_files\<close> from its first line. Lines 38 to 41 resolve the path and ask whether
  it exists and is a directory, outside any \<^verbatim>\<open>try\<close>: either the path can be examined,
  and nothing, a file or a directory stands there, or the examination raises (a
  component longer than the file system allows, a parent that may not be searched, a
  loop of symbolic links). The run returns what it reported, or raises; with it comes
  what stands at the path when the run ends.
\<close>

datatype 'a located = Cannot_examine error | Examined "'a node option"

datatype ending = Raised error | Returned outcome

definition organize_files_os :: "'a os \<Rightarrow> 'a located \<Rightarrow> (ending \<times> 'a located) option" where
  "organize_files_os os target =
     (case target of
        Cannot_examine e \<Rightarrow> Some (Raised e, target)
      | Examined None \<Rightarrow> Some (Returned NotADirectory, target)
      | Examined (Some (File c)) \<Rightarrow> Some (Returned NotADirectory, target)
      | Examined (Some (Dir es)) \<Rightarrow>
          (let all_files = get_all_files (Dir es) in
           if all_files = [] then Some (Returned NoFilesFound, target)
           else
             let files_by_type = group_files_os (str_upper os) all_files []
             in case process_groups_os os files_by_type
                       \<lparr>fs = Dir es, total_moved = 0, total_errors = 0\<rparr> of
                  None \<Rightarrow> None
                | Some (Inl (e, st)) \<Rightarrow> Some (Raised e, Examined (Some (fs st)))
                | Some (Inr st) \<Rightarrow>
                    Some (Returned (Summary (total_moved st) (total_errors st)),
                          Examined (Some (cleanup_empty_dirs_os os (fs st) (map fst files_by_type))))))"

text \<open>
  The operating system of the earlier sections: ASCII names, a truthful \<^verbatim>\<open>exists\<close>,
  nothing refused, and a move that is a rename.
\<close>

definition rename_move :: "fpath \<Rightarrow> fpath \<Rightarrow> 'a node \<Rightarrow> (error \<times> 'a node) + 'a node" where
  "rename_move src dst t = (case shutil_move src dst t of Inl e \<Rightarrow> Inl (e, t) | Inr t' \<Rightarrow> Inr t')"

definition permissive :: "'a os" where
  "permissive =
     \<lparr>str_upper = upper,
      path_exists_os = (\<lambda>t p. Inr (path_exists t p)),
      mkdir_refused = (\<lambda>file_type t. None),
      shutil_move_os = rename_move,
      rmdir_refused = (\<lambda>p. False)\<rparr>"

text \<open>
  Three operating systems that differ from it in one call each, as Linux does.

  \<open>name_limit n\<close>: \<^verbatim>\<open>Path.exists\<close> raises \<^verbatim>\<open>OSError\<close> (\<^verbatim>\<open>ENAMETOOLONG\<close>) for a path with a
  component of more than \<open>n\<close> bytes.

  \<open>dangling_links dangling\<close>: the files whose content satisfies \<open>dangling\<close> are symbolic
  links to nothing. The scan lists them as files, a rename moves or replaces them
  like files, and \<^verbatim>\<open>Path.exists\<close>, which follows links, answers \<open>False\<close> for them.

  \<open>read_only ro\<close>: the directories whose paths are in \<open>ro\<close> may not be written. A move out
  of one of them cannot rename; \<^verbatim>\<open>shutil.move\<close> then copies the file to the destination
  and fails to unlink the source, raising \<^verbatim>\<open>PermissionError\<close> with both files in place.
  This is the move of a file to a free name, the only move a run asks for when
  \<^verbatim>\<open>Path.exists\<close> is right; any other move out of such a directory is given as failing
  without a change.
\<close>

definition name_limit :: "nat \<Rightarrow> 'a os" where
  "name_limit n =
     permissive\<lparr>path_exists_os :=
       (\<lambda>t p. if list_ex (\<lambda>name. n < length name) p then Inl OSError
               else Inr (path_exists t p))\<rparr>"

definition dangling_links :: "('a \<Rightarrow> bool) \<Rightarrow> 'a os" where
  "dangling_links dangling =
     permissive\<lparr>path_exists_os :=
       (\<lambda>t p. case lookup t p of
                 Some (File c) \<Rightarrow> Inr (\<not> dangling c)
               | Some (Dir es) \<Rightarrow> Inr True
               | None \<Rightarrow> Inr False)\<rparr>"

definition read_only :: "path list \<Rightarrow> 'a os" where
  "read_only ro =
     permissive\<lparr>shutil_move_os :=
       (\<lambda>src dst t.
          if fst src \<in> set ro
          then (case (lookup t (fst src @ [snd src]), lookup t (fst dst), lookup t (fst dst @ [snd dst])) of
                  (Some (File c), Some (Dir es), None) \<Rightarrow>
                    if fst dst \<in> set ro then Inl (PermissionError, t)
                    else Inl (PermissionError, update_dir (fst dst) (add_entry (snd dst) (File c)) t)
                | _ \<Rightarrow> Inl (PermissionError, t))
          else rename_move src dst t)\<rparr>"

text \<open>What the theorems below ask of an operating system.\<close>

text \<open>
  \<open>exists_truthful\<close>: when \<^verbatim>\<open>Path.exists\<close> answers, the answer is right. It may still
  raise.
\<close>

definition exists_truthful :: "'a os \<Rightarrow> bool" where
  "exists_truthful os \<longleftrightarrow> (\<forall>t p b. path_exists_os os t p = Inr b \<longrightarrow> b = path_exists t p)"

text \<open>
  \<open>move_renames\<close>: a move of a regular file that succeeds is the rename of
  \<open>shutil_move\<close>, and one that fails leaves the tree as it was. It may fail for any
  reason. Nothing is asked of a move whose source is no regular file; the organizer
  asks for none.
\<close>

definition move_renames :: "'a os \<Rightarrow> bool" where
  "move_renames os \<longleftrightarrow>
     (\<forall>src dst t c. lookup t (fst src @ [snd src]) = Some (File c) \<longrightarrow>
        (\<forall>t'. shutil_move_os os src dst t = Inr t' \<longrightarrow> shutil_move src dst t = Inr t') \<and>
        (\<forall>e t'. shutil_move_os os src dst t = Inl (e, t') \<longrightarrow> t' = t))"

text \<open>
  \<open>upper_law\<close>: what the theorems use of \<^verbatim>\<open>str.upper\<close>. On a string of ASCII characters
  it replaces each of the letters a to z by its capital and keeps every other
  character, and no string but the empty one becomes empty.
\<close>

definition upper_law :: "(string \<Rightarrow> string) \<Rightarrow> bool" where
  "upper_law up \<longleftrightarrow>
     (\<forall>s. (\<forall>c \<in> set s. (of_char c :: nat) < 128) \<longrightarrow>
          up s = map (\<lambda>c. if 97 \<le> (of_char c :: nat) \<and> (of_char c :: nat) \<le> 122
                         then char_of ((of_char c :: nat) - 32) else c) s) \<and>
     (\<forall>s. up s = [] \<longrightarrow> s = [])"

text \<open>The state in which a step ended, returned or raised.\<close>

definition state_of :: "'a progress \<Rightarrow> 'a state" where
  "state_of r = (case r of Inl (e, st) \<Rightarrow> st | Inr st \<Rightarrow> st)"

text \<open>
  \<open>pending_files pend t\<close>: the files still to be moved are distinct and each stands in
  the tree at the path under which the scan found it.
\<close>

definition pending_files :: "fpath list \<Rightarrow> 'a node \<Rightarrow> bool" where
  "pending_files pend t \<longleftrightarrow>
     distinct pend \<and> (\<forall>r \<in> set pend. \<exists>c. lookup t (fst r @ [snd r]) = Some (File c))"

section \<open>The key of a name\<close>

lemma upper_char_table:
  "upper_char c = (if 97 \<le> (of_char c :: nat) \<and> (of_char c :: nat) \<le> 122
                   then char_of ((of_char c :: nat) - 32) else c)"
  by (simp add: upper_char_def Let_def)

lemma upper_law_upper: "upper_law upper"
  unfolding upper_law_def by (simp add: upper_def upper_char_table)

lemma upper_law_Nil: "upper_law up \<Longrightarrow> up [] = []"
  unfolding upper_law_def by force

lemma extension_key_os_upper: "extension_key_os upper name = extension_key name"
  by (simp add: extension_key_os_def extension_key_def)

lemma extension_key_os_no_suffix:
  "upper_law up \<Longrightarrow> suffix_of name = [] \<Longrightarrow> extension_key_os up name = ''NO_EXTENSION''"
  by (simp add: extension_key_os_def lstrip_def upper_law_Nil)

lemma extension_key_os_split:
  assumes "upper_law up" "stem \<noteq> []" "ext \<noteq> []" "CHR ''.'' \<notin> set ext"
  shows "extension_key_os up (stem @ CHR ''.'' # ext) = up ext"
proof -
  have "lstrip CHR ''.'' (CHR ''.'' # ext) = ext"
    using assms(3,4) by (cases ext) (auto simp: lstrip_def)
  moreover have "up ext \<noteq> []" using assms(1,3) unfolding upper_law_def by blast
  ultimately show ?thesis using assms by (simp add: extension_key_os_def suffix_of_split)
qed

lemma extension_key_os_not_Nil: "extension_key_os up name \<noteq> []"
  by (simp add: extension_key_os_def Let_def)

section \<open>The Cleaner of any operating system\<close>

lemma remove_empty_dirs_os_keeps:
  "n \<in> set ex \<or> map_of es n \<noteq> Some (Dir []) \<Longrightarrow>
   map_of (remove_empty_dirs_os r ex dp ds es) n = map_of es n"
proof (induction ds arbitrary: es)
  case Nil
  show ?case by simp
next
  case (Cons d ds)
  let ?es = "if d \<in> set ex then es
             else (case map_of es d of
                     Some (Dir []) \<Rightarrow> if r (dp @ [d]) then es else remove_entry d es
                   | _ \<Rightarrow> es)"
  have same: "map_of ?es n = map_of es n"
    using Cons.prems
    by (cases "n = d") (auto simp: map_of_remove_entry_other split: option.splits node.splits list.splits)
  have "map_of (remove_empty_dirs_os r ex dp ds ?es) n = map_of ?es n"
    by (rule Cons.IH) (use Cons.prems same in presburger)
  then show ?case using same by simp
qed

lemma map_of_cleanup_entries_os:
  "map_of (cleanup_entries_os r ex dp es) n = map_option (cleanup_node_os r ex (dp @ [n])) (map_of es n)"
  by (induction es) auto

lemma cleanup_os_keeps:
  "lookup t (p @ [n]) = Some d \<Longrightarrow> n \<in> set ex \<or> cleanup_node_os r ex (dp @ p @ [n]) d \<noteq> Dir [] \<Longrightarrow>
   lookup (cleanup_node_os r ex dp t) (p @ [n]) = Some (cleanup_node_os r ex (dp @ p @ [n]) d)"
proof (induction p arbitrary: t dp)
  case Nil
  from Nil.prems(1) obtain es where t: "t = Dir es" and mo: "map_of es n = Some d"
    using lookup_Some_ConsD[of t n "[]" d] by auto
  have "map_of (cleanup_entries_os r ex dp es) n = Some (cleanup_node_os r ex (dp @ [n]) d)"
    using mo by (simp add: map_of_cleanup_entries_os)
  moreover from this Nil.prems(2)
  have "n \<in> set ex \<or> map_of (cleanup_entries_os r ex dp es) n \<noteq> Some (Dir [])" by auto
  ultimately show ?case
    using t remove_empty_dirs_os_keeps[of n ex "cleanup_entries_os r ex dp es" r dp "dirnames es"]
    by simp
next
  case (Cons a p)
  from Cons.prems(1) obtain es c where t: "t = Dir es" and mo: "map_of es a = Some c"
    and lc: "lookup c (p @ [n]) = Some d"
    using lookup_Some_ConsD[of t a "p @ [n]" d] by auto
  from Cons.prems(2) have "n \<in> set ex \<or> cleanup_node_os r ex ((dp @ [a]) @ p @ [n]) d \<noteq> Dir []"
    by simp
  from Cons.IH[OF lc this]
  have ih: "lookup (cleanup_node_os r ex (dp @ [a]) c) (p @ [n])
      = Some (cleanup_node_os r ex (dp @ a # p @ [n]) d)" by simp
  then have ne: "cleanup_node_os r ex (dp @ [a]) c \<noteq> Dir []" by (auto simp: lookup_empty_dir)
  have mcl: "map_of (cleanup_entries_os r ex dp es) a = Some (cleanup_node_os r ex (dp @ [a]) c)"
    using mo by (simp add: map_of_cleanup_entries_os)
  with ne have "a \<in> set ex \<or> map_of (cleanup_entries_os r ex dp es) a \<noteq> Some (Dir [])" by simp
  from remove_empty_dirs_os_keeps[OF this, of r dp "dirnames es"] mcl ih t show ?case by simp
qed

lemma cleanup_node_os_file: "cleanup_node_os r ex dp d = File c \<longleftrightarrow> d = File c"
  by (cases d) auto


lemma cleanup_os_keeps_named:
  assumes "lookup t (p @ [n]) = Some (Dir sub)" "n \<in> set ex"
  shows "\<exists>sub'. lookup (cleanup_empty_dirs_os os t ex) (p @ [n]) = Some (Dir sub')"
  using cleanup_os_keeps[OF assms(1), of ex "rmdir_refused os" "[]"] assms(2)
  by (simp add: cleanup_empty_dirs_os_def)




section \<open>The Mover of an operating system whose answers are right\<close>

lemma find_dest_os_truthful:
  assumes "exists_truthful os"
  shows "(\<exists>e. find_dest_os os t d s x c n = Some (Inl e)) \<or>
         find_dest_os os t d s x c n = Some (Inr (find_dest t d s x c n))"
proof (induction t d s x c n rule: find_dest.induct)
  case (1 t d s x c n)
  show ?case
  proof (cases "path_exists_os os t (d @ [n])")
    case (Inl e)
    then show ?thesis using find_dest_os.simps[of os t d s x c n] by simp
  next
    case (Inr b)
    with assms have b: "b = path_exists t (d @ [n])" by (auto simp: exists_truthful_def)
    show ?thesis
    proof (cases "path_exists t (d @ [n])")
      case True
      from "1.IH"[OF True] show ?thesis
        using Inr b True find_dest_os.simps[of os t d s x c n] find_dest.simps[of t d s x c n]
        by simp
    next
      case False
      then show ?thesis
        using Inr b find_dest_os.simps[of os t d s x c n] find_dest.simps[of t d s x c n]
        by simp
    qed
  qed
qed

lemma move_file_os_cases:
  assumes ex: "exists_truthful os" and mv: "move_renames os"
    and src: "lookup (fs st) (fst p @ [snd p]) = Some (File c)"
  obtains (skipped) "fst p = [k]" "move_file_os os k p st = Some (Inr st)" "move_file k p st = st"
  | (raised) e where "fst p \<noteq> [k]" "move_file_os os k p st = Some (Inl (e, st))"
  | (moved) "fst p \<noteq> [k]" "move_file_os os k p st = Some (Inr (move_file k p st))"
      "total_moved (move_file k p st) = total_moved st + 1"
      "total_errors (move_file k p st) = total_errors st"
  | (failed) "fst p \<noteq> [k]"
      "move_file_os os k p st = Some (Inr (st\<lparr>total_errors := total_errors st + 1\<rparr>))"
proof (cases "fst p = [k]")
  case True
  then show ?thesis using skipped by (simp add: move_file_os_def move_file_def)
next
  case False
  let ?dn = "find_dest (fs st) [k] (stem_of (snd p)) (suffix_of (snd p)) 1 (snd p)"
  from find_dest_os_truthful[OF ex, of "fs st" "[k]" "stem_of (snd p)" "suffix_of (snd p)" 1 "snd p"]
  consider e where "find_dest_os os (fs st) [k] (stem_of (snd p)) (suffix_of (snd p)) 1 (snd p) = Some (Inl e)"
    | "find_dest_os os (fs st) [k] (stem_of (snd p)) (suffix_of (snd p)) 1 (snd p) = Some (Inr ?dn)"
    by blast
  then show ?thesis
  proof cases
    case 1
    then show ?thesis using False raised[of e] by (simp add: move_file_os_def)
  next
    case 2
    show ?thesis
    proof (cases "shutil_move_os os p ([k], ?dn) (fs st)")
      case (Inr t)
      with mv src have "shutil_move p ([k], ?dn) (fs st) = Inr t" unfolding move_renames_def by blast
      then have "move_file k p st = st\<lparr>fs := t, total_moved := total_moved st + 1\<rparr>"
        using False by (simp add: move_file_def)
      then show ?thesis using False 2 Inr moved by (simp add: move_file_os_def)
    next
      case (Inl a)
      obtain e t where a: "a = (e, t)" by (cases a)
      with Inl mv src have "t = fs st" unfolding move_renames_def by blast
      then show ?thesis using False 2 Inl a failed by (simp add: move_file_os_def)
    qed
  qed
qed



lemma mkdir_os_cases:
  obtains (refused) e where "mkdir_os os k t = Inl e"
  | (made) t' where "mkdir_os os k t = Inr t'" "mkdir_exist_ok [] k t = Inr t'"
  by (cases "mkdir_refused os k t"; cases "mkdir_exist_ok [] k t") (auto simp: mkdir_os_def)


subsection \<open>The files still to be moved\<close>


lemma move_file_keeps_file:
  assumes "lookup (fs st) q = Some (File c)" "q \<noteq> fst r @ [snd r]"
  shows "lookup (fs (move_file k r st)) q = Some (File c)"
  using move_file_keeps[OF assms, of k] assms(1)
    kind_at_file[of "fs (move_file k r st)" q c] kind_at_file[of "fs st" q c] by simp

lemma mkdir_keeps_file:
  assumes mk: "mkdir_exist_ok [] k t = Inr t'" and f: "lookup t x = Some (File c)"
  shows "lookup t' x = Some (File c)"
proof -
  have "x \<noteq> [k]" using mk f by (cases rule: mkdir_cases) auto
  from mkdir_kind[OF mk this] f show ?thesis
    using kind_at_file[of t' x c] kind_at_file[of t x c] by simp
qed

lemma pending_files_made:
  assumes "pending_files pend t" "mkdir_exist_ok [] k t = Inr t'"
  shows "pending_files pend t'"
  unfolding pending_files_def
proof (intro conjI ballI)
  show "distinct pend" using assms(1) by (simp add: pending_files_def)
  fix r
  assume "r \<in> set pend"
  with assms(1) obtain c where "lookup t (fst r @ [snd r]) = Some (File c)"
    by (auto simp: pending_files_def)
  from mkdir_keeps_file[OF assms(2) this] show "\<exists>c. lookup t' (fst r @ [snd r]) = Some (File c)"
    by blast
qed

lemma pending_files_step:
  assumes "pending_files (p # pend) (fs st)"
  shows "pending_files pend (fs (move_file k p st))"
  unfolding pending_files_def
proof (intro conjI ballI)
  show "distinct pend" using assms by (simp add: pending_files_def)
  fix r
  assume r: "r \<in> set pend"
  with assms obtain c where c: "lookup (fs st) (fst r @ [snd r]) = Some (File c)"
    by (auto simp: pending_files_def)
  have "r \<noteq> p" using assms r by (auto simp: pending_files_def)
  then have "fst r @ [snd r] \<noteq> fst p @ [snd p]" by (auto simp: prod_eq_iff)
  from move_file_keeps_file[OF c this] show "\<exists>c. lookup (fs (move_file k p st)) (fst r @ [snd r]) = Some (File c)"
    by blast
qed

lemma pending_files_drop: "pending_files (files @ pend) t \<Longrightarrow> pending_files pend t"
  by (simp add: pending_files_def)


subsection \<open>What every step keeps, the run keeps\<close>

lemma move_files_os_invariant:
  assumes ex: "exists_truthful os" and mv: "move_renames os"
    and step: "\<And>p st. I st \<Longrightarrow> I (move_file k p st)"
    and errs: "\<And>st n. I st \<Longrightarrow> I (st\<lparr>total_errors := total_errors st + n\<rparr>)"
  shows "I st \<Longrightarrow> pending_files (ps @ pend) (fs st) \<Longrightarrow>
         \<exists>r. move_files_os os k ps st = Some r \<and> I (state_of r) \<and>
             (\<forall>st'. r = Inr st' \<longrightarrow> pending_files pend (fs st'))"
proof (induction ps arbitrary: st)
  case Nil
  then show ?case by (simp add: state_of_def)
next
  case (Cons p ps)
  from Cons.prems(2) obtain c where src: "lookup (fs st) (fst p @ [snd p]) = Some (File c)"
    by (auto simp: pending_files_def)
  from Cons.prems(2) have rest: "pending_files (ps @ pend) (fs st)"
    using pending_files_drop[of "[p]" "ps @ pend" "fs st"] by simp
  from Cons.prems(2) have next_one: "pending_files (ps @ pend) (fs (move_file k p st))"
    using pending_files_step[of p "ps @ pend" st k] by simp
  from ex mv src show ?case
  proof (cases rule: move_file_os_cases[where p = p and k = k and st = st])
    case skipped
    then show ?thesis using Cons.IH[OF Cons.prems(1) rest] by simp
  next
    case (raised e)
    then show ?thesis using Cons.prems(1) by (simp add: state_of_def)
  next
    case moved
    then show ?thesis using Cons.IH[OF step[OF Cons.prems(1), of p] next_one] by simp
  next
    case failed
    have "pending_files (ps @ pend) (fs (st\<lparr>total_errors := total_errors st + 1\<rparr>))"
      using rest by simp
    from Cons.IH[OF errs[OF Cons.prems(1), of 1] this] failed show ?thesis by simp
  qed
qed

lemma process_groups_os_invariant:
  assumes ex: "exists_truthful os" and mv: "move_renames os"
    and mk: "\<And>k st t. I st \<Longrightarrow> mkdir_exist_ok [] k (fs st) = Inr t \<Longrightarrow> I (st\<lparr>fs := t\<rparr>)"
    and step: "\<And>k p st. I st \<Longrightarrow> I (move_file k p st)"
    and errs: "\<And>st n. I st \<Longrightarrow> I (st\<lparr>total_errors := total_errors st + n\<rparr>)"
  shows "I st \<Longrightarrow> pending_files (concat (map snd g)) (fs st) \<Longrightarrow>
         \<exists>r. process_groups_os os g st = Some r \<and> I (state_of r)"
proof (induction g arbitrary: st)
  case Nil
  then show ?case by (simp add: state_of_def)
next
  case (Cons a g)
  obtain k files where a: "a = (k, files)" by (cases a)
  from Cons.prems(2) a have pf: "pending_files (files @ concat (map snd g)) (fs st)" by simp
  show ?case
  proof (cases rule: mkdir_os_cases[where os = os and k = k and t = "fs st"])
    case (refused e)
    have "pending_files (concat (map snd g)) (fs (st\<lparr>total_errors := total_errors st + length files\<rparr>))"
      using pending_files_drop[OF pf] by simp
    from Cons.IH[OF errs[OF Cons.prems(1), of "length files"] this] refused a show ?thesis by simp
  next
    case (made t)
    have i: "I (st\<lparr>fs := t\<rparr>)" by (rule mk[OF Cons.prems(1) made(2)])
    have "pending_files (files @ concat (map snd g)) (fs (st\<lparr>fs := t\<rparr>))"
      using pending_files_made[OF pf made(2)] by simp
    from move_files_os_invariant[where I = I, OF ex mv step errs i this]
    obtain r where r: "move_files_os os k files (st\<lparr>fs := t\<rparr>) = Some r" "I (state_of r)"
      "\<forall>st'. r = Inr st' \<longrightarrow> pending_files (concat (map snd g)) (fs st')"
      by blast
    show ?thesis
    proof (cases r)
      case (Inl b)
      then show ?thesis using a made(1) r by simp
    next
      case (Inr st')
      with r have "I st'" "pending_files (concat (map snd g)) (fs st')" by (simp_all add: state_of_def)
      from Cons.IH[OF this] show ?thesis using a made(1) r(1) Inr by simp
    qed
  qed
qed

section \<open>The operating systems at hand\<close>

lemma exists_truthful_permissive: "exists_truthful permissive"
  by (simp add: exists_truthful_def permissive_def)

lemma move_renames_permissive: "move_renames permissive"
  unfolding move_renames_def by (auto simp: permissive_def rename_move_def split: sum.splits)

lemma exists_truthful_name_limit: "exists_truthful (name_limit n)"
  by (simp add: exists_truthful_def name_limit_def permissive_def)

lemma move_renames_name_limit: "move_renames (name_limit n)"
  unfolding move_renames_def
  by (auto simp: name_limit_def permissive_def rename_move_def split: sum.splits)

lemma move_renames_dangling_links: "move_renames (dangling_links dangling)"
  unfolding move_renames_def
  by (auto simp: dangling_links_def permissive_def rename_move_def split: sum.splits)

lemma exists_truthful_read_only: "exists_truthful (read_only ro)"
  by (simp add: exists_truthful_def read_only_def permissive_def)

section \<open>Grouping by any upper-casing\<close>

lemma group_files_os_keys:
  "fst ` set (group_files_os up ps g) = (\<lambda>p. extension_key_os up (snd p)) ` set ps \<union> fst ` set g"
proof (induction up ps g rule: group_files_os.induct)
  case (1 up files_by_type)
  show ?case by simp
next
  case (2 up file_path ps files_by_type)
  then show ?case by (simp add: add_to_group_keys)
qed

lemma group_files_os_mset:
  "mset (concat (map snd (group_files_os up ps g))) = mset ps + mset (concat (map snd g))"
  by (induction up ps g rule: group_files_os.induct) (auto simp: add_to_group_mset)

fun grouped_by :: "(string \<Rightarrow> string) \<Rightarrow> groups \<Rightarrow> bool" where
  "grouped_by key [] = True"
| "grouped_by key ((k, files) # g) =
     (files \<noteq> [] \<and> list_all (\<lambda>p. key (snd p) = k) files \<and> grouped_by key g)"

lemma add_to_group_grouped_by:
  "grouped_by key g \<Longrightarrow> key (snd p) = k \<Longrightarrow> grouped_by key (add_to_group k p g)"
  by (induction k p g rule: add_to_group.induct) auto

lemma group_files_os_grouped:
  "grouped_by (extension_key_os up) g \<Longrightarrow> grouped_by (extension_key_os up) (group_files_os up ps g)"
  by (induction up ps g rule: group_files_os.induct) (auto simp: add_to_group_grouped_by)

lemma group_files_os_set: "set (concat (map snd (group_files_os up ps []))) = set ps"
proof -
  have "mset (concat (map snd (group_files_os up ps []))) = mset ps"
    using group_files_os_mset[of up ps "[]"] by simp
  then show ?thesis by (rule mset_eq_setD)
qed

lemma group_files_os_distinct:
  "distinct ps \<Longrightarrow> distinct (concat (map snd (group_files_os up ps [])))"
proof -
  assume d: "distinct ps"
  have "mset (concat (map snd (group_files_os up ps []))) = mset ps"
    using group_files_os_mset[of up ps "[]"] by simp
  from mset_eq_imp_distinct_iff[OF this] d show ?thesis by simp
qed

lemma group_files_os_upper: "group_files_os upper ps g = group_files ps g"
  by (induction ps arbitrary: g) (simp_all add: extension_key_os_def extension_key_def)

lemma add_to_group_distinct_keys:
  "distinct (map fst g) \<Longrightarrow> distinct (map fst (add_to_group k p g))"
proof (induction k p g rule: add_to_group.induct)
  case (1 k p)
  show ?case by simp
next
  case (2 k p k' ps g)
  then show ?case using add_to_group_keys[of k p g] by (auto simp: image_iff)
qed

lemma group_files_os_distinct_keys:
  "distinct (map fst g) \<Longrightarrow> distinct (map fst (group_files_os up ps g))"
  by (induction up ps g rule: group_files_os.induct) (simp_all add: add_to_group_distinct_keys)

text \<open>
  Claim C5. Every file name gets one key, and the cases below cover every name
  (\<open>name_cases\<close>): a name without a dot, a name whose only dot is its first character,
  and a name ending in a dot have no extension for \<^verbatim>\<open>Path.suffix\<close> and get
  \<open>NO_EXTENSION\<close>; any other name gets the text after its last dot, without the dot,
  as \<^verbatim>\<open>str.upper\<close> returns it. \<^verbatim>\<open>str.upper\<close> is the parameter \<open>up\<close>, of which only
  \<open>upper_law\<close> is used; for an extension of ASCII characters the key is spelled out:
  each letter from a to z is replaced by its capital and every other character is
  kept. \<open>report.PDF\<close> and \<open>notes.pdf\<close> both get \<open>PDF\<close>, and \<open>README\<close> gets
  \<open>NO_EXTENSION\<close>. The grouping of lines 55 to 64 puts every scanned file into exactly
  one group, the group of its key, and no two groups have the same key.
\<close>
theorem extension_key_classifies:
  assumes "upper_law up"
  shows "(CHR ''.'' \<notin> set name \<longrightarrow> extension_key_os up name = ''NO_EXTENSION'') \<and>
   (CHR ''.'' \<notin> set rest \<longrightarrow> extension_key_os up (CHR ''.'' # rest) = ''NO_EXTENSION'') \<and>
   extension_key_os up (s @ ''.'') = ''NO_EXTENSION'' \<and>
   (stem \<noteq> [] \<and> ext \<noteq> [] \<and> CHR ''.'' \<notin> set ext \<longrightarrow>
      extension_key_os up (stem @ ''.'' @ ext) = up ext \<and>
      ((\<forall>c \<in> set ext. (of_char c :: nat) < 128) \<longrightarrow>
         extension_key_os up (stem @ ''.'' @ ext)
           = map (\<lambda>c. if 97 \<le> (of_char c :: nat) \<and> (of_char c :: nat) \<le> 122
                       then char_of ((of_char c :: nat) - 32) else c) ext)) \<and>
   extension_key_os up ''report.PDF'' = ''PDF'' \<and>
   extension_key_os up ''notes.pdf'' = ''PDF'' \<and>
   extension_key_os up ''README'' = ''NO_EXTENSION'' \<and>
   mset (concat (map snd (group_files_os up files []))) = mset files \<and>
   grouped_by (extension_key_os up) (group_files_os up files []) \<and>
   distinct (map fst (group_files_os up files []))"
proof -
  have groups: "mset (concat (map snd (group_files_os up files []))) = mset files \<and>
   grouped_by (extension_key_os up) (group_files_os up files []) \<and>
   distinct (map fst (group_files_os up files []))"
    using group_files_os_mset[of up files "[]"] group_files_os_grouped[of up "[]" files]
      group_files_os_distinct_keys[of "[]" up files] by simp
  have ascii: "up ext = map (\<lambda>c. if 97 \<le> (of_char c :: nat) \<and> (of_char c :: nat) \<le> 122
                       then char_of ((of_char c :: nat) - 32) else c) ext"
    if "\<forall>c \<in> set ext. (of_char c :: nat) < 128" for ext
    using assms that unfolding upper_law_def by blast
  have t1: "map (\<lambda>c. if 97 \<le> (of_char c :: nat) \<and> (of_char c :: nat) \<le> 122
               then char_of ((of_char c :: nat) - 32) else c) ''PDF'' = ''PDF''" by code_simp
  have t2: "map (\<lambda>c. if 97 \<le> (of_char c :: nat) \<and> (of_char c :: nat) \<le> 122
               then char_of ((of_char c :: nat) - 32) else c) ''pdf'' = ''PDF''" by code_simp
  have "up ''PDF'' = ''PDF''" using ascii[of "''PDF''"] t1 by simp
  then have "extension_key_os up ''report.PDF'' = ''PDF''"
    using extension_key_os_split[OF assms, of "''report''" "''PDF''"] by simp
  moreover have "up ''pdf'' = ''PDF''" using ascii[of "''pdf''"] t2 by simp
  then have "extension_key_os up ''notes.pdf'' = ''PDF''"
    using extension_key_os_split[OF assms, of "''notes''" "''pdf''"] by simp
  moreover have "extension_key_os up ''README'' = ''NO_EXTENSION''"
    by (rule extension_key_os_no_suffix[OF assms], rule suffix_of_nodot) simp
  ultimately show ?thesis
    using ascii groups
    by (simp add: extension_key_os_no_suffix[OF assms] suffix_of_nodot suffix_of_hidden
        suffix_of_trailing extension_key_os_split[OF assms])
qed

theorem extension_key_classifies_witness:
  "upper_law upper \<and>
   extension_key_os upper ''Makefile'' = ''NO_EXTENSION'' \<and>
   extension_key_os upper ''.bashrc'' = ''NO_EXTENSION'' \<and>
   extension_key_os upper ''draft.'' = ''NO_EXTENSION'' \<and>
   extension_key_os upper ''archive.tar.gz'' = upper ''gz'' \<and>
   extension_key_os upper ''archive.tar.gz'' = ''GZ'' \<and>
   mset (concat (map snd (group_files_os upper [([], ''a.gz''), ([''d''], ''b''), ([], ''c.GZ'')] [])))
     = {#([], ''a.gz''), ([''d''], ''b''), ([], ''c.GZ'')#} \<and>
   distinct (map fst (group_files_os upper [([], ''a.gz''), ([''d''], ''b''), ([], ''c.GZ'')] []))"
proof -
  have "(\<forall>c \<in> set ''gz''. (of_char c :: nat) < 128)" by simp
  moreover have "map (\<lambda>c. if 97 \<le> (of_char c :: nat) \<and> (of_char c :: nat) \<le> 122
                       then char_of ((of_char c :: nat) - 32) else c) ''gz'' = ''GZ''" by code_simp
  moreover have "upper ''gz'' = ''GZ''" by code_simp
  ultimately show ?thesis
    using extension_key_classifies[OF upper_law_upper, of "''Makefile''" "''bashrc''" "''draft''" "''archive.tar''" "''gz''"
        "[([], ''a.gz''), ([''d''], ''b''), ([], ''c.GZ'')]"]
    by (simp add: upper_law_upper)
qed

section \<open>A run, from its first line to its last\<close>

lemma organize_files_os_run:
  assumes "get_all_files (Dir es) \<noteq> []"
  shows "organize_files_os os (Examined (Some (Dir es))) =
     (case process_groups_os os (group_files_os (str_upper os) (get_all_files (Dir es)) [])
             \<lparr>fs = Dir es, total_moved = 0, total_errors = 0\<rparr> of
        None \<Rightarrow> None
      | Some (Inl (e, st)) \<Rightarrow> Some (Raised e, Examined (Some (fs st)))
      | Some (Inr st) \<Rightarrow>
          Some (Returned (Summary (total_moved st) (total_errors st)),
                Examined (Some (cleanup_empty_dirs_os os (fs st)
                  (map fst (group_files_os (str_upper os) (get_all_files (Dir es)) []))))))"
  using assms by (simp add: organize_files_os_def Let_def)

lemma pending_files_scan:
  assumes wf: "wf_node (Dir es)"
  shows "pending_files (concat (map snd (group_files_os up (get_all_files (Dir es)) []))) (Dir es)"
  unfolding pending_files_def
proof (intro conjI ballI)
  show "distinct (concat (map snd (group_files_os up (get_all_files (Dir es)) [])))"
    by (rule group_files_os_distinct[OF distinct_get_all_files[OF wf]])
  fix r
  assume "r \<in> set (concat (map snd (group_files_os up (get_all_files (Dir es)) [])))"
  then have "(fst r, snd r) \<in> set (get_all_files (Dir es))"
    using group_files_os_set[of up "get_all_files (Dir es)"] by (simp del: set_concat)
  from walk_in_lookup[OF wf this] show "\<exists>c. lookup (Dir es) (fst r @ [snd r]) = Some (File c)"
    by simp
qed

lemma organize_files_os_ends:
  assumes ex: "exists_truthful os" and mv: "move_renames os" and wf: "wf_node (Dir es)"
    and mk: "\<And>k st t. I st \<Longrightarrow> mkdir_exist_ok [] k (fs st) = Inr t \<Longrightarrow> I (st\<lparr>fs := t\<rparr>)"
    and step: "\<And>k p st. I st \<Longrightarrow> I (move_file k p st)"
    and errs: "\<And>st n. I st \<Longrightarrow> I (st\<lparr>total_errors := total_errors st + n\<rparr>)"
    and init: "I \<lparr>fs = Dir es, total_moved = 0, total_errors = 0\<rparr>"
    and ne: "get_all_files (Dir es) \<noteq> []"
  obtains (raised) e st where
      "organize_files_os os (Examined (Some (Dir es))) = Some (Raised e, Examined (Some (fs st)))"
      "I st"
  | (returned) st where
      "organize_files_os os (Examined (Some (Dir es)))
         = Some (Returned (Summary (total_moved st) (total_errors st)),
             Examined (Some (cleanup_empty_dirs_os os (fs st)
               (map fst (group_files_os (str_upper os) (get_all_files (Dir es)) [])))))"
      "I st"
proof -
  have "\<exists>r. process_groups_os os (group_files_os (str_upper os) (get_all_files (Dir es)) [])
      \<lparr>fs = Dir es, total_moved = 0, total_errors = 0\<rparr> = Some r \<and> I (state_of r)"
  proof (rule process_groups_os_invariant[where I = I, OF ex mv])
    show "I (st\<lparr>fs := t\<rparr>)" if "I st" "mkdir_exist_ok [] k (fs st) = Inr t" for k st t
      using that by (rule mk)
    show "I (move_file k p st)" if "I st" for k p st using that by (rule step)
    show "I (st\<lparr>total_errors := total_errors st + n\<rparr>)" if "I st" for st n
      using that by (rule errs)
    show "I \<lparr>fs = Dir es, total_moved = 0, total_errors = 0\<rparr>" by (rule init)
    show "pending_files (concat (map snd (group_files_os (str_upper os) (get_all_files (Dir es)) [])))
            (fs \<lparr>fs = Dir es, total_moved = 0, total_errors = 0\<rparr>)"
      using pending_files_scan[OF wf] by simp
  qed
  then obtain r where r: "process_groups_os os (group_files_os (str_upper os) (get_all_files (Dir es)) [])
      \<lparr>fs = Dir es, total_moved = 0, total_errors = 0\<rparr> = Some r" "I (state_of r)" by blast
  show ?thesis
  proof (cases r)
    case (Inl a)
    obtain e st where "a = (e, st)" by (cases a)
    with Inl r show ?thesis using raised[of e st] organize_files_os_run[OF ne, of os]
      by (simp add: state_of_def)
  next
    case (Inr st)
    with r show ?thesis using returned[of st] organize_files_os_run[OF ne, of os]
      by (simp add: state_of_def)
  qed
qed

section \<open>Completeness of a run\<close>








section \<open>What the Cleaner skips\<close>

lemma keeps_directory:
  fixes q :: path
  defines "I \<equiv> \<lambda>st :: 'a state. \<exists>sub. lookup (fs st) q = Some (Dir sub)"
  shows "\<And>k st t. I st \<Longrightarrow> mkdir_exist_ok [] k (fs st) = Inr t \<Longrightarrow> I (st\<lparr>fs := t\<rparr>)"
    and "\<And>k p st. I st \<Longrightarrow> I (move_file k p st)"
    and "\<And>st n. I st \<Longrightarrow> I (st\<lparr>total_errors := total_errors st + n\<rparr>)"
proof -
  show "I (st\<lparr>fs := t\<rparr>)" if "I st" "mkdir_exist_ok [] k (fs st) = Inr t" for k st t
  proof -
    from that(1) obtain sub where "lookup (fs st) q = Some (Dir sub)" unfolding I_def by blast
    from mkdir_keeps_dir[OF that(2) this] show ?thesis by (simp add: I_def)
  qed
  show "I (move_file k p st)" if "I st" for k p st
  proof -
    from that obtain sub where "lookup (fs st) q = Some (Dir sub)" unfolding I_def by blast
    from move_file_keeps_dir[OF this, of k p] show ?thesis by (simp add: I_def)
  qed
  show "I (st\<lparr>total_errors := total_errors st + n\<rparr>)" if "I st" for st n
    using that by (simp add: I_def)
qed

text \<open>
  Claim C9. The Cleaner excludes by name, wherever the directory stands: a directory
  whose name is in the exclusion list is still there after the cleanup, empty or not,
  at any depth, on the file system that permits everything (where the Cleaner would
  remove it otherwise) and on any other. The exclusion list of a run holds the keys of
  the scanned files, whatever \<^verbatim>\<open>str.upper\<close> makes of their extensions, so the Cleaner
  called with that list keeps every directory named as the key of a scanned file, in
  whatever tree the Mover left. From end to end: when \<^verbatim>\<open>Path.exists\<close> is right whenever
  it answers and a move renames or fails without a trace, the run on a tree ends, and a
  directory of the initial tree named as the key of some scanned file is still there, also when
  it is nested and no destination folder (\<open>sub/PDF\<close> when a \<open>.pdf\<close> file was scanned).
\<close>
theorem cleaner_excludes_by_name:
  "(lookup t (p @ [n]) = Some (Dir sub) \<and> n \<in> set ex \<longrightarrow>
      lookup (cleanup_empty_dirs t ex) (p @ [n]) = Some (cleanup_node ex (Dir sub)) \<and>
      is_dir (cleanup_node ex (Dir sub)) \<and>
      (\<exists>sub'. lookup (cleanup_empty_dirs_os os t ex) (p @ [n]) = Some (Dir sub'))) \<and>
   ((d, f) \<in> set scanned \<and> lookup t (p @ [extension_key_os up f]) = Some (Dir sub) \<longrightarrow>
      (\<exists>sub'. lookup (cleanup_empty_dirs_os os t (map fst (group_files_os up scanned [])))
                 (p @ [extension_key_os up f]) = Some (Dir sub'))) \<and>
   (exists_truthful os \<and> move_renames os \<and> wf_node (Dir es) \<and>
    (d, f) \<in> set (get_all_files (Dir es)) \<and>
    lookup (Dir es) (q @ [extension_key_os (str_upper os) f]) = Some (Dir sub0) \<longrightarrow>
      (\<exists>ending t' sub1.
         organize_files_os os (Examined (Some (Dir es))) = Some (ending, Examined (Some t')) \<and>
         lookup t' (q @ [extension_key_os (str_upper os) f]) = Some (Dir sub1)))"
proof (intro conjI impI)
  assume a: "lookup t (p @ [n]) = Some (Dir sub) \<and> n \<in> set ex"
  then show "lookup (cleanup_empty_dirs t ex) (p @ [n]) = Some (cleanup_node ex (Dir sub))"
    using cleanup_keeps[of t p n "Dir sub" ex] by (simp add: cleanup_empty_dirs_def)
  show "is_dir (cleanup_node ex (Dir sub))" by simp
  from a show "\<exists>sub'. lookup (cleanup_empty_dirs_os os t ex) (p @ [n]) = Some (Dir sub')"
    using cleanup_os_keeps_named[of t p n sub ex os] by blast
next
  assume a: "(d, f) \<in> set scanned \<and> lookup t (p @ [extension_key_os up f]) = Some (Dir sub)"
  then have "extension_key_os up f \<in> fst ` set (group_files_os up scanned [])"
    using group_files_os_keys[of up scanned "[]"] by force
  then have "extension_key_os up f \<in> set (map fst (group_files_os up scanned []))" by simp
  with a show "\<exists>sub'. lookup (cleanup_empty_dirs_os os t (map fst (group_files_os up scanned [])))
                 (p @ [extension_key_os up f]) = Some (Dir sub')"
    using cleanup_os_keeps_named[of t "p" "extension_key_os up f" sub _ os] by blast
next
  assume a: "exists_truthful os \<and> move_renames os \<and> wf_node (Dir es) \<and>
    (d, f) \<in> set (get_all_files (Dir es)) \<and>
    lookup (Dir es) (q @ [extension_key_os (str_upper os) f]) = Some (Dir sub0)"
  let ?k = "extension_key_os (str_upper os) f"
  let ?g = "group_files_os (str_upper os) (get_all_files (Dir es)) []"
  let ?I = "\<lambda>st :: 'a state. \<exists>sub. lookup (fs st) (q @ [?k]) = Some (Dir sub)"
  from a have ex: "exists_truthful os" and mv: "move_renames os" and wf: "wf_node (Dir es)"
    and ne: "get_all_files (Dir es) \<noteq> []" by auto
  have "?k \<in> fst ` set ?g"
    using a group_files_os_keys[of "str_upper os" "get_all_files (Dir es)" "[]"] by force
  then have key: "?k \<in> set (map fst ?g)" by simp
  show "\<exists>ending t' sub1.
         organize_files_os os (Examined (Some (Dir es))) = Some (ending, Examined (Some t')) \<and>
         lookup t' (q @ [?k]) = Some (Dir sub1)"
  proof (rule organize_files_os_ends[where I = ?I and os = os and es = es, OF ex mv wf _ _ _ _ ne])
    show "?I (st\<lparr>fs := t\<rparr>)" if "?I st" "mkdir_exist_ok [] k (fs st) = Inr t" for k st t
      using that by (rule keeps_directory(1))
    show "?I (move_file k p st)" if "?I st" for k p st
      using that by (rule keeps_directory(2))
    show "?I (st\<lparr>total_errors := total_errors st + n\<rparr>)" if "?I st" for st n
      using that by (rule keeps_directory(3))
    show "?I \<lparr>fs = Dir es, total_moved = 0, total_errors = 0\<rparr>" using a by simp
  next
    fix e st
    assume "organize_files_os os (Examined (Some (Dir es))) = Some (Raised e, Examined (Some (fs st)))"
      "?I st"
    then show ?thesis by blast
  next
    fix st
    assume r: "organize_files_os os (Examined (Some (Dir es)))
         = Some (Returned (Summary (total_moved st) (total_errors st)),
             Examined (Some (cleanup_empty_dirs_os os (fs st) (map fst ?g))))"
      and "?I st"
    then obtain sub where "lookup (fs st) (q @ [?k]) = Some (Dir sub)" by blast
    from cleanup_os_keeps_named[OF this key, of os] r show ?thesis by blast
  qed
qed

theorem cleaner_excludes_by_name_witness:
  "lookup (Dir [(''sub'', Dir [(''PDF'', Dir [])])] :: nat node) [''sub'', ''PDF''] = Some (Dir []) \<and>
   lookup (cleanup_empty_dirs (Dir [(''sub'', Dir [(''PDF'', Dir [])])] :: nat node) [''PDF''])
     [''sub'', ''PDF''] = Some (Dir []) \<and>
   (\<exists>sub'. lookup (cleanup_empty_dirs_os (name_limit 255)
                (Dir [(''sub'', Dir [(''PDF'', Dir [])])] :: nat node)
                (map fst (group_files_os upper [([], ''x.pdf'')] []))) [''sub'', ''PDF'']
              = Some (Dir sub')) \<and>
   exists_truthful (name_limit 255 :: nat os) \<and> move_renames (name_limit 255 :: nat os) \<and>
   wf_node (Dir [(''x.pdf'', File (1::nat)), (''sub'', Dir [(''PDF'', Dir [])])]) \<and>
   ([], ''x.pdf'') \<in> set (get_all_files (Dir [(''x.pdf'', File (1::nat)), (''sub'', Dir [(''PDF'', Dir [])])])) \<and>
   extension_key_os (str_upper (name_limit 255 :: nat os)) ''x.pdf'' = ''PDF'' \<and>
   (\<exists>ending t' sub1.
      organize_files_os (name_limit 255)
        (Examined (Some (Dir [(''x.pdf'', File (1::nat)), (''sub'', Dir [(''PDF'', Dir [])])])))
        = Some (ending, Examined (Some t')) \<and>
      lookup t' [''sub'', ''PDF''] = Some (Dir sub1))"
proof -
  let ?t = "Dir [(''sub'', Dir [(''PDF'', Dir [])])] :: nat node"
  let ?es = "[(''x.pdf'', File (1::nat)), (''sub'', Dir [(''PDF'', Dir [])])]"
  let ?os = "name_limit 255 :: nat os"
  have k: "extension_key_os (str_upper ?os) ''x.pdf'' = ''PDF''" by code_simp
  have s: "([], ''x.pdf'') \<in> set (get_all_files (Dir ?es))" by code_simp
  have l: "lookup (Dir ?es) ([''sub''] @ [''PDF'']) = Some (Dir [])" by simp
  have l0: "lookup ?t ([''sub''] @ [''PDF'']) = Some (Dir []) \<and> ''PDF'' \<in> set [''PDF'']" by simp
  note th = cleaner_excludes_by_name[where t = ?t and p = "[''sub'']" and n = "''PDF''" and sub = "[]"
      and ex = "[''PDF'']" and os = ?os and d = "[]" and f = "''x.pdf''" and es = ?es
      and q = "[''sub'']" and ?sub0.0 = "[]" and scanned = "[([], ''x.pdf'')]" and up = upper]
  from th l0 have c: "lookup (cleanup_empty_dirs ?t [''PDF'']) ([''sub''] @ [''PDF''])
      = Some (cleanup_node [''PDF''] (Dir []))" by blast
  have pre: "exists_truthful ?os \<and> move_renames ?os \<and> wf_node (Dir ?es) \<and>
    ([], ''x.pdf'') \<in> set (get_all_files (Dir ?es)) \<and>
    lookup (Dir ?es) ([''sub''] @ [extension_key_os (str_upper ?os) ''x.pdf'']) = Some (Dir [])"
    using s exists_truthful_name_limit[of 255] move_renames_name_limit[of 255] unfolding k by simp
  from th pre
  have "\<exists>ending t' sub1. organize_files_os ?os (Examined (Some (Dir ?es))) = Some (ending, Examined (Some t')) \<and>
      lookup t' ([''sub''] @ [extension_key_os (str_upper ?os) ''x.pdf'']) = Some (Dir sub1)"
    by blast
  then have "\<exists>ending t' sub1. organize_files_os ?os (Examined (Some (Dir ?es))) = Some (ending, Examined (Some t')) \<and>
      lookup t' [''sub'', ''PDF''] = Some (Dir sub1)"
    unfolding k by simp
  moreover have "lookup (cleanup_empty_dirs ?t [''PDF'']) [''sub'', ''PDF''] = Some (Dir [])"
    using c by (simp add: dirnames_def)
  moreover have "\<exists>sub'. lookup (cleanup_empty_dirs_os ?os ?t
      (map fst (group_files_os upper [([], ''x.pdf'')] []))) [''sub'', ''PDF''] = Some (Dir sub')"
  proof -
    have ku: "extension_key_os upper ''x.pdf'' = ''PDF''" by code_simp
    have "([], ''x.pdf'') \<in> set [([], ''x.pdf'')] \<and>
      lookup ?t ([''sub''] @ [extension_key_os upper ''x.pdf'']) = Some (Dir [])"
      unfolding ku by simp
    with th have "\<exists>sub'. lookup (cleanup_empty_dirs_os ?os ?t
        (map fst (group_files_os upper [([], ''x.pdf'')] [])))
        ([''sub''] @ [extension_key_os upper ''x.pdf'']) = Some (Dir sub')" by blast
    then show ?thesis unfolding ku by simp
  qed
  moreover have "lookup ?t [''sub'', ''PDF''] = Some (Dir [])" by simp
  moreover have "wf_node (Dir ?es)" by simp
  ultimately show ?thesis
    using k s exists_truthful_name_limit[of 255] move_renames_name_limit[of 255] by blast
qed

section \<open>A run without errors is the run of the permissive system\<close>



section \<open>An invariant rule for groups under any key\<close>



section \<open>Two files of the same name\<close>

text \<open>
  \<open>located k x l pend\<close>: the file scanned as \<open>x\<close> now stands at path \<open>l\<close>: at its own
  path while it is pending, and afterwards in the folder \<open>k\<close>, at a path that no
  pending file has.
\<close>

definition located :: "string \<Rightarrow> fpath \<Rightarrow> path \<Rightarrow> fpath list \<Rightarrow> bool" where
  "located k x l pend \<longleftrightarrow>
     (x \<in> set pend \<and> l = fst x @ [snd x]) \<or>
     (x \<notin> set pend \<and> l \<notin> (\<lambda>r. fst r @ [snd r]) ` set pend \<and> (\<exists>m. l = [k, m]))"











section \<open>The permissive system is one of them\<close>

text \<open>
  The organizer of the earlier sections is the organizer of this section on the
  operating system \<open>permissive\<close>: what was proved of \<open>organize_files\<close> is proved of
  \<open>organize_files_os permissive\<close>.
\<close>

lemma find_dest_os_permissive:
  "find_dest_os permissive t d s x c n = Some (Inr (find_dest t d s x c n))"
proof (induction t d s x c n rule: find_dest.induct)
  case (1 t d s x c n)
  show ?case
  proof (cases "path_exists t (d @ [n])")
    case True
    from "1.IH"[OF True] show ?thesis
      using True find_dest_os.simps[of permissive t d s x c n] find_dest.simps[of t d s x c n]
      by (simp add: permissive_def)
  next
    case False
    then show ?thesis
      using find_dest_os.simps[of permissive t d s x c n] find_dest.simps[of t d s x c n]
      by (simp add: permissive_def)
  qed
qed

lemma shutil_move_os_permissive: "shutil_move_os permissive = rename_move"
  by (simp add: permissive_def)

lemma move_file_os_permissive: "move_file_os permissive k p st = Some (Inr (move_file k p st))"
  by (cases "shutil_move p ([k], find_dest (fs st) [k] (stem_of (snd p)) (suffix_of (snd p)) 1 (snd p)) (fs st)")
    (simp_all add: move_file_os_def move_file_def Let_def find_dest_os_permissive
      shutil_move_os_permissive rename_move_def)

lemma move_files_os_permissive: "move_files_os permissive k ps st = Some (Inr (move_files k ps st))"
  by (induction ps arbitrary: st) (simp_all add: move_file_os_permissive)

lemma mkdir_os_permissive: "mkdir_os permissive k t = mkdir_exist_ok [] k t"
  by (simp add: mkdir_os_def permissive_def)

lemma process_groups_os_permissive:
  "process_groups_os permissive g st = Some (Inr (process_groups g st))"
proof (induction g arbitrary: st)
  case Nil
  show ?case by simp
next
  case (Cons a g)
  obtain k files where a: "a = (k, files)" by (cases a)
  show ?case
    by (cases "mkdir_exist_ok [] k (fs st)")
      (simp_all add: a mkdir_os_permissive move_files_os_permissive Cons.IH)
qed

lemma remove_empty_dirs_os_permitted:
  "remove_empty_dirs_os (\<lambda>p. False) ex dp ds es = remove_empty_dirs ex ds es"
  by (induction ds arbitrary: es) simp_all

lemma cleanup_os_permitted:
  "cleanup_node_os (\<lambda>p. False) ex dp (t :: 'a node) = cleanup_node ex t"
  "cleanup_entries_os (\<lambda>p. False) ex dp (es :: 'a entries) = cleanup_entries ex es"
  by (induction "\<lambda>p :: path. False" ex dp t and "\<lambda>p :: path. False" ex dp es
      rule: cleanup_node_os_cleanup_entries_os.induct)
    (simp_all add: remove_empty_dirs_os_permitted)

lemma cleanup_empty_dirs_os_permissive:
  "cleanup_empty_dirs_os permissive t ex = cleanup_empty_dirs t ex"
  by (simp add: cleanup_empty_dirs_os_def cleanup_empty_dirs_def permissive_def cleanup_os_permitted)

lemma organize_files_os_permissive:
  "organize_files_os permissive (Examined target)
     = Some (Returned (fst (organize_files target)), Examined (snd (organize_files target)))"
proof (cases target)
  case None
  then show ?thesis by (simp add: organize_files_os_def organize_files_def)
next
  case (Some t)
  show ?thesis
  proof (cases t)
    case (File c)
    then show ?thesis using Some by (simp add: organize_files_os_def organize_files_def)
  next
    case (Dir es)
    have "str_upper (permissive :: 'a os) = upper" by (simp add: permissive_def)
    then show ?thesis using Some Dir
      by (simp add: organize_files_os_def organize_files_def Let_def group_files_os_upper
          process_groups_os_permissive cleanup_empty_dirs_os_permissive)
  qed
qed

end
